theory Spec2Isabelle
  imports Main "HOL-Library.AList"
begin

section \<open>Values, items and the node capability registry\<close>

text \<open>
  Attribute values and the entries of an element's \<open>internal\<close> object are JavaScript
  values. Only their truthiness and their equality are used by the code below.
\<close>

datatype jsval = JNull | JBool bool | JNum int | JStr string | JArr "jsval list"
  | JObj "(string \<times> jsval) list"

fun truthy :: "jsval \<Rightarrow> bool" where
  "truthy JNull = False"
| "truthy (JBool b) = b"
| "truthy (JNum n) = (n \<noteq> 0)"
| "truthy (JStr s) = (s \<noteq> [])"
| "truthy (JArr _) = True"
| "truthy (JObj _) = True"

type_synonym jsobject = "(string \<times> jsval) list"

text \<open>
  An element of the linear data: \<open>{ type, attributes?, annotations?, internal?,
  originalDomElementsIndex? }\<close>. An absent field is \<open>None\<close>. The parameter \<open>'r\<close> is the
  representation of an array of annotation store indexes: the list of indexes itself where
  only its contents matter, an address into a store of arrays where the identity of the
  array matters.
\<close>

record 'r element =
  type :: string
  attributes :: "jsobject option"
  annotations :: "'r option"
  internal :: "jsobject option"
  originalDomElementsIndex :: "nat option"

text \<open>
  One slot of the linear data: a plain character (a string), an annotated character
  (the pair \<open>[ character, indexes ]\<close>), or an element. \<open>Undefined\<close> is what reading the
  array gives where it holds nothing: out of range, or in a hole left by a write past the end.
\<close>

datatype 'r item = Undefined | Chr string | AnnChr string 'r | Elem "'r element"

datatype error = UnknownNodeType string | TypeError | OffsetOutOfBounds int | LookupError nat

text \<open>
  Modelled from the spec: the static capability fields of a registered node class
  (\<open>ve.dm.Node.static\<close>, whose declaration is not among the sources), as the fields that
  \<open>ve.dm.NodeFactory\<close> reads from \<open>this.registry[ type ].static\<close>. A list of types that is
  \<open>null\<close> (any type allowed) is \<open>None\<close>.
\<close>

record node_static =
  childNodeTypes :: "string list option"
  parentNodeTypes :: "string list option"
  suggestedParentNodeTypes :: "string list option"
  canContainContent :: bool
  isContent :: bool
  isWrapped :: bool
  isUnwrappable :: bool
  isFocusable :: bool
  hasSignificantWhitespace :: bool
  handlesOwnChildren :: bool
  ignoreChildren :: bool
  isInternal :: bool
  isDeletable :: bool
  blacklistedAnnotationTypes :: "string list"
  defaultAttributes :: jsobject

type_synonym registry = "string \<rightharpoonup> node_static"

subsection \<open>ve.dm.NodeFactory\<close>

text \<open>
  Every query first tests \<open>hasOwnProperty.call( this.registry, type )\<close> and throws
  \<open>Unknown node type\<close> otherwise.
\<close>

definition extendObject :: "jsobject \<Rightarrow> jsobject \<Rightarrow> jsobject" where
  "extendObject a b = foldl (\<lambda>acc (k, v). AList.update k v acc) a b"

definition getDataElement :: "registry \<Rightarrow> string \<Rightarrow> jsobject option \<Rightarrow> error + 'r element" where
  "getDataElement reg ty attrs =
     (case reg ty of
        Some st \<Rightarrow>
          (let element = \<lparr> type = ty, attributes = None, annotations = None, internal = None,
                           originalDomElementsIndex = None \<rparr>;
               attrs' = extendObject (extendObject [] (defaultAttributes st))
                          (case attrs of None \<Rightarrow> [] | Some a \<Rightarrow> a)
           in if attrs' \<noteq> [] then Inr (element\<lparr> attributes := Some attrs' \<rparr>) else Inr element)
      | None \<Rightarrow> Inl (UnknownNodeType ty))"

definition getChildNodeTypes :: "registry \<Rightarrow> string \<Rightarrow> error + string list option" where
  "getChildNodeTypes reg ty =
     (case reg ty of Some st \<Rightarrow> Inr (childNodeTypes st) | None \<Rightarrow> Inl (UnknownNodeType ty))"

definition getParentNodeTypes :: "registry \<Rightarrow> string \<Rightarrow> error + string list option" where
  "getParentNodeTypes reg ty =
     (case reg ty of Some st \<Rightarrow> Inr (parentNodeTypes st) | None \<Rightarrow> Inl (UnknownNodeType ty))"

definition getSuggestedParentNodeTypes :: "registry \<Rightarrow> string \<Rightarrow> error + string list option" where
  "getSuggestedParentNodeTypes reg ty =
     (case reg ty of Some st \<Rightarrow> Inr (suggestedParentNodeTypes st)
      | None \<Rightarrow> Inl (UnknownNodeType ty))"

definition canNodeHaveChildren :: "registry \<Rightarrow> string \<Rightarrow> error + bool" where
  "canNodeHaveChildren reg ty =
     (case reg ty of
        Some st \<Rightarrow>
          (let types = childNodeTypes st
           in Inr (case types of None \<Rightarrow> True | Some ts \<Rightarrow> length ts > 0))
      | None \<Rightarrow> Inl (UnknownNodeType ty))"

definition canNodeHaveChildrenNotContent :: "registry \<Rightarrow> string \<Rightarrow> error + bool" where
  "canNodeHaveChildrenNotContent reg ty =
     (case reg ty of
        Some st \<Rightarrow>
          (case canNodeHaveChildren reg ty of
             Inl e \<Rightarrow> Inl e
           | Inr b \<Rightarrow> Inr (b \<and> \<not> canContainContent st \<and> \<not> isContent st))
      | None \<Rightarrow> Inl (UnknownNodeType ty))"

definition isNodeWrapped :: "registry \<Rightarrow> string \<Rightarrow> error + bool" where
  "isNodeWrapped reg ty =
     (case reg ty of Some st \<Rightarrow> Inr (isWrapped st) | None \<Rightarrow> Inl (UnknownNodeType ty))"

definition isNodeUnwrappable :: "registry \<Rightarrow> string \<Rightarrow> error + bool" where
  "isNodeUnwrappable reg ty =
     (case reg ty of
        Some st \<Rightarrow>
          (case isNodeWrapped reg ty of
             Inl e \<Rightarrow> Inl e
           | Inr b \<Rightarrow> Inr (b \<and> isUnwrappable st))
      | None \<Rightarrow> Inl (UnknownNodeType ty))"

definition canNodeContainContent :: "registry \<Rightarrow> string \<Rightarrow> error + bool" where
  "canNodeContainContent reg ty =
     (case reg ty of Some st \<Rightarrow> Inr (canContainContent st) | None \<Rightarrow> Inl (UnknownNodeType ty))"

text \<open>
  \<open>canNodeTakeAnnotationType\<close> tests the annotation with \<open>instanceof\<close> against the class
  that \<open>ve.dm.annotationFactory.lookup\<close> gives for each blacklisted annotation type. The
  annotation classes belong to the annotation factory, which is outside these sources:
  \<open>annotationClass\<close> is its \<open>lookup\<close>, \<open>None\<close> for the \<open>undefined\<close> it returns for a name it
  does not know, and \<open>instanceOf\<close> is the test of an annotation against a class.
  \<open>instanceof\<close> throws a \<open>TypeError\<close> when its right-hand side is \<open>undefined\<close>.
\<close>

fun blacklist_loop ::
  "(string \<Rightarrow> 'c option) \<Rightarrow> ('a \<Rightarrow> 'c \<Rightarrow> bool) \<Rightarrow> string list \<Rightarrow> 'a \<Rightarrow> error + bool" where
  "blacklist_loop annotationClass instanceOf [] annotation = Inr True"
| "blacklist_loop annotationClass instanceOf (b # bs) annotation =
     (case annotationClass b of
        None \<Rightarrow> Inl TypeError
      | Some c \<Rightarrow>
          if instanceOf annotation c then Inr False
          else blacklist_loop annotationClass instanceOf bs annotation)"

definition canNodeTakeAnnotationType ::
  "(string \<Rightarrow> 'c option) \<Rightarrow> ('a \<Rightarrow> 'c \<Rightarrow> bool) \<Rightarrow> registry \<Rightarrow> string \<Rightarrow> 'a \<Rightarrow> error + bool" where
  "canNodeTakeAnnotationType annotationClass instanceOf reg ty annotation =
     (case reg ty of
        None \<Rightarrow> Inl (UnknownNodeType ty)
      | Some st \<Rightarrow>
          blacklist_loop annotationClass instanceOf (blacklistedAnnotationTypes st) annotation)"

definition isNodeContent :: "registry \<Rightarrow> string \<Rightarrow> error + bool" where
  "isNodeContent reg ty =
     (case reg ty of Some st \<Rightarrow> Inr (isContent st) | None \<Rightarrow> Inl (UnknownNodeType ty))"

definition isNodeFocusable :: "registry \<Rightarrow> string \<Rightarrow> error + bool" where
  "isNodeFocusable reg ty =
     (case reg ty of Some st \<Rightarrow> Inr (isFocusable st) | None \<Rightarrow> Inl (UnknownNodeType ty))"

definition doesNodeHaveSignificantWhitespace :: "registry \<Rightarrow> string \<Rightarrow> error + bool" where
  "doesNodeHaveSignificantWhitespace reg ty =
     (case reg ty of Some st \<Rightarrow> Inr (hasSignificantWhitespace st)
      | None \<Rightarrow> Inl (UnknownNodeType ty))"

definition doesNodeHandleOwnChildren :: "registry \<Rightarrow> string \<Rightarrow> error + bool" where
  "doesNodeHandleOwnChildren reg ty =
     (case reg ty of Some st \<Rightarrow> Inr (handlesOwnChildren st)
      | None \<Rightarrow> Inl (UnknownNodeType ty))"

definition shouldIgnoreChildren :: "registry \<Rightarrow> string \<Rightarrow> error + bool" where
  "shouldIgnoreChildren reg ty =
     (case reg ty of Some st \<Rightarrow> Inr (ignoreChildren st) | None \<Rightarrow> Inl (UnknownNodeType ty))"

definition isNodeInternal :: "registry \<Rightarrow> string \<Rightarrow> error + bool" where
  "isNodeInternal reg ty =
     (case reg ty of Some st \<Rightarrow> Inr (isInternal st) | None \<Rightarrow> Inl (UnknownNodeType ty))"

definition isNodeDeletable :: "registry \<Rightarrow> string \<Rightarrow> error + bool" where
  "isNodeDeletable reg ty =
     (case reg ty of Some st \<Rightarrow> Inr (isDeletable st) | None \<Rightarrow> Inl (UnknownNodeType ty))"

section \<open>Linear data\<close>

text \<open>
  Boolean expressions of the source evaluate left to right and stop at the first operand
  that decides them; an operand that throws is only reached when the ones before it did
  not decide.
\<close>

definition andE :: "error + bool \<Rightarrow> error + bool \<Rightarrow> error + bool" where
  "andE a b = (case a of Inl e \<Rightarrow> Inl e | Inr x \<Rightarrow> if x then b else Inr False)"

definition orE :: "error + bool \<Rightarrow> error + bool \<Rightarrow> error + bool" where
  "orE a b = (case a of Inl e \<Rightarrow> Inl e | Inr x \<Rightarrow> if x then Inr True else b)"

definition notE :: "error + bool \<Rightarrow> error + bool" where
  "notE a = (case a of Inl e \<Rightarrow> Inl e | Inr x \<Rightarrow> Inr (\<not> x))"

definition bindE :: "error + 'a \<Rightarrow> ('a \<Rightarrow> error + 'b) \<Rightarrow> error + 'b" where
  "bindE a f = (case a of Inl e \<Rightarrow> Inl e | Inr x \<Rightarrow> f x)"

text \<open>\<open>s.charAt( 0 ) === '/'\<close>, and \<open>s.slice( 1 )\<close>.\<close>

definition isCloseName :: "string \<Rightarrow> bool" where
  "isCloseName s = (case s of [] \<Rightarrow> False | c # _ \<Rightarrow> c = CHR ''/'')"

definition slice1 :: "string \<Rightarrow> string" where
  "slice1 s = drop 1 s"

text \<open>
  \<open>item.type\<close>: the type of an element, \<open>undefined\<close> (\<open>None\<close>) on a string or an array.
  A value that is \<open>undefined\<close> turns into the string \<open>undefined\<close> where JavaScript uses it
  as a property name or concatenates it.
\<close>

fun item_type :: "'r item \<Rightarrow> string option" where
  "item_type (Elem e) = Some (type e)"
| "item_type _ = None"

definition js_string :: "string option \<Rightarrow> string" where
  "js_string t = (case t of None \<Rightarrow> ''undefined'' | Some s \<Rightarrow> s)"

fun isString :: "'r item \<Rightarrow> bool" where
  "isString (Chr _) = True"
| "isString _ = False"

fun isArray :: "'r item \<Rightarrow> bool" where
  "isArray (AnnChr _ _) = True"
| "isArray _ = False"

subsection \<open>ve.dm.LinearData and ve.dm.FlatLinearData\<close>

text \<open>
  Modelled from the spec: the accessors of the base classes \<open>ve.dm.LinearData\<close> and
  \<open>ve.dm.FlatLinearData\<close>, which \<open>ve.dm.ElementLinearData\<close> extends and whose files are not
  among the sources. The data is the flat ordered sequence of items; \<open>getData( offset )\<close>
  reads one slot (\<open>undefined\<close> outside the sequence), \<open>setData\<close> writes one slot (a write
  past the end extends a JavaScript array, leaving holes; a write at a negative offset
  does not touch the sequence), \<open>splice\<close> is \<open>Array.prototype.splice\<close>. An element is an
  item with a string \<open>type\<close>; it is a closing marker when the type starts with \<open>/\<close>, and
  \<open>getType\<close> gives the type without that slash.
\<close>

definition getLength :: "'r item list \<Rightarrow> int" where
  "getLength d = int (length d)"

definition getData :: "'r item list \<Rightarrow> int \<Rightarrow> 'r item" where
  "getData d offset = (if 0 \<le> offset \<and> offset < int (length d) then d ! nat offset else Undefined)"

definition setData :: "'r item list \<Rightarrow> int \<Rightarrow> 'r item \<Rightarrow> 'r item list" where
  "setData d offset v =
     (if offset < 0 then d
      else if offset < int (length d) then d[nat offset := v]
      else d @ replicate (nat offset - length d) Undefined @ [v])"

definition splice :: "'r item list \<Rightarrow> int \<Rightarrow> int \<Rightarrow> 'r item list \<Rightarrow> 'r item list" where
  "splice d start deleteCount ins =
     (let len = int (length d);
          s = (if start < 0 then max (len + start) 0 else min start len);
          c = min (max deleteCount 0) (len - s)
      in take (nat s) d @ ins @ drop (nat (s + c)) d)"

definition isElementData :: "'r item list \<Rightarrow> int \<Rightarrow> bool" where
  "isElementData d offset =
     (let item = getData d offset in item \<noteq> Undefined \<and> item_type item \<noteq> None)"

definition isOpenElementData :: "'r item list \<Rightarrow> int \<Rightarrow> bool" where
  "isOpenElementData d offset =
     (let item = getData d offset
      in item \<noteq> Undefined \<and> item_type item \<noteq> None \<and> \<not> isCloseName (js_string (item_type item)))"

definition isCloseElementData :: "'r item list \<Rightarrow> int \<Rightarrow> bool" where
  "isCloseElementData d offset =
     (let item = getData d offset
      in item \<noteq> Undefined \<and> item_type item \<noteq> None \<and> isCloseName (js_string (item_type item)))"

definition getType :: "'r item list \<Rightarrow> int \<Rightarrow> error + string option" where
  "getType d offset =
     (let item = getData d offset
      in if item = Undefined then Inl TypeError
         else if isCloseElementData d offset then Inr (Some (slice1 (js_string (item_type item))))
         else Inr (item_type item))"

section \<open>ve.dm.ElementLinearData\<close>

subsection \<open>Offset classification\<close>

definition isContentOffset :: "registry \<Rightarrow> 'r item list \<Rightarrow> int \<Rightarrow> error + bool" where
  "isContentOffset reg d offset =
     (if offset = 0 \<or> offset = getLength d then Inr False
      else
        let left = getData d (offset - 1);
            right = getData d offset
        in andE (Inr (left \<noteq> Undefined \<and> right \<noteq> Undefined))
            (orE (Inr (isString left \<or> isString right))
            (orE (Inr (isArray left \<or> isArray right))
            (orE
              (andE (Inr (item_type left \<noteq> None))
              (andE (Inr (isCloseName (js_string (item_type left))))
                    (isNodeContent reg (slice1 (js_string (item_type left))))))
            (orE
              (andE (Inr (item_type right \<noteq> None))
              (andE (Inr (\<not> isCloseName (js_string (item_type right))))
                    (isNodeContent reg (js_string (item_type right)))))
              (andE (Inr (Some (CHR ''/'' # js_string (item_type left)) = item_type right))
                    (canNodeContainContent reg (js_string (item_type left)))))))))"

definition isStructuralOffset :: "registry \<Rightarrow> 'r item list \<Rightarrow> int \<Rightarrow> bool \<Rightarrow> error + bool" where
  "isStructuralOffset reg d offset unrestricted =
     (if offset = 0 \<or> offset = getLength d then Inr True
      else
        let left = getData d (offset - 1);
            right = getData d offset;
            lt = js_string (item_type left);
            rt = js_string (item_type right)
        in andE (Inr (left \<noteq> Undefined \<and> right \<noteq> Undefined \<and>
                     item_type left \<noteq> None \<and> item_type right \<noteq> None))
            (orE
              (andE (Inr (isCloseName lt))
              (andE (orE (canNodeHaveChildren reg (slice1 lt))
                         (notE (isNodeContent reg (slice1 lt))))
                    (orE (Inr (\<not> unrestricted))
                         (bindE (getParentNodeTypes reg (slice1 lt)) (\<lambda>ts. Inr (ts = None))))))
            (orE
              (andE (Inr (\<not> isCloseName rt))
              (andE (orE (canNodeHaveChildren reg rt)
                         (notE (isNodeContent reg rt)))
                    (orE (Inr (\<not> unrestricted))
                         (bindE (getParentNodeTypes reg rt) (\<lambda>ts. Inr (ts = None))))))
              (andE (Inr (CHR ''/'' # lt = rt))
              (andE (canNodeHaveChildrenNotContent reg lt)
                    (orE (Inr (\<not> unrestricted))
                         (bindE (getChildNodeTypes reg lt) (\<lambda>ts. Inr (ts = None)))))))))"

subsection \<open>Relative offsets\<close>

text \<open>
  The loop of \<open>getRelativeOffset\<close>. The variable \<open>direction\<close> of the source only ever holds
  \<open>1\<close> or \<open>-1\<close>; here it is \<open>forward\<close> (\<open>direction > 0\<close>), and \<open>dirInt\<close> gives the number.
  The callback is any function of the offset that returns a boolean or throws.
\<close>

definition dirInt :: "bool \<Rightarrow> int" where
  "dirInt forward = (if forward then 1 else -1)"

function getRelativeOffset_loop ::
  "registry \<Rightarrow> 'r item list \<Rightarrow> (int \<Rightarrow> error + bool) \<Rightarrow> int \<Rightarrow>
   int \<Rightarrow> bool \<Rightarrow> int \<Rightarrow> int \<Rightarrow> int \<Rightarrow> bool \<Rightarrow> int \<Rightarrow> error + int" where
  "getRelativeOffset_loop reg d callback start i forward distance steps offset turnedAround
       ignoreChildrenDepth =
     (if \<not> (i \<ge> 0 \<and> i \<le> getLength d) then Inr offset
      else
        let dataOffset = i + (if forward then -1 else 0)
        in (case (if isElementData d dataOffset
                 then bindE (getType d dataOffset) (\<lambda>t. shouldIgnoreChildren reg (js_string t))
                 else Inr False) of
             Inl e \<Rightarrow> Inl e
           | Inr ignored \<Rightarrow>
               let isOpen = isOpenElementData d dataOffset;
                   entered = ((forward \<and> isOpen) \<or> (\<not> forward \<and> \<not> isOpen));
                   depth = (if ignored then (if entered then ignoreChildrenDepth + 1
                                             else ignoreChildrenDepth - 1)
                            else ignoreChildrenDepth)
               in if ignored \<and> \<not> entered \<and> depth < 0 then Inr (-1)
                  else
                    (case callback i of
                      Inl e \<Rightarrow> Inl e
                    | Inr valid \<Rightarrow>
                        if valid then
                          (if depth = 0 then
                             (if distance = steps + 1 then Inr i
                              else getRelativeOffset_loop reg d callback start (i + dirInt forward)
                                     forward distance (steps + 1) i turnedAround depth)
                           else getRelativeOffset_loop reg d callback start (i + dirInt forward)
                                  forward distance steps offset turnedAround depth)
                        else
                          (case andE (Inr (\<not> turnedAround \<and> steps = 0))
                                 (orE (Inr (\<not> forward \<and> i = 0))
                                   (andE (Inr forward)
                                     (orE (Inr (i = getLength d))
                                          (bindE (getType d (i - 1))
                                             (\<lambda>t. Inr (t = Some ''internalList'')))))) of
                            Inl e \<Rightarrow> Inl e
                          | Inr turn \<Rightarrow>
                              if turn then
                                (case callback start of
                                   Inl e \<Rightarrow> Inl e
                                 | Inr startValid \<Rightarrow>
                                     if startValid then Inr start
                                     else getRelativeOffset_loop reg d callback start
                                            (start + dirInt (\<not> forward)) (\<not> forward) 1 steps
                                            offset True 0)
                              else getRelativeOffset_loop reg d callback start (i + dirInt forward)
                                     forward distance steps offset turnedAround depth))))"
  by pat_completeness auto

termination
  by (relation "inv_image (less_than <*lex*> less_than)
        (\<lambda>(reg, d, callback, start, i, forward, distance, steps, offset, turnedAround, depth).
           (if turnedAround then 0 else (1::nat),
            if forward then nat (getLength d + 1 - i) else nat (i + 1)))")
     (auto simp: dirInt_def andE_def split: if_splits)

declare getRelativeOffset_loop.simps [simp del]

definition getRelativeOffset ::
  "registry \<Rightarrow> 'r item list \<Rightarrow> int \<Rightarrow> int \<Rightarrow> (int \<Rightarrow> error + bool) \<Rightarrow> error + int" where
  "getRelativeOffset reg d offset distance callback =
     (let start = offset;
          run = (\<lambda>distance.
            let forward = (if offset \<le> 0 then True
                           else if offset \<ge> getLength d then False
                           else distance > 0)
            in getRelativeOffset_loop reg d callback start (start + dirInt forward) forward
                 (abs distance) 0 (-1) False 0)
      in if distance = 0 then
           (case callback offset of
              Inl e \<Rightarrow> Inl e
            | Inr valid \<Rightarrow> if valid then Inr offset else run 1)
         else run distance)"

definition getRelativeContentOffset :: "registry \<Rightarrow> 'r item list \<Rightarrow> int \<Rightarrow> int \<Rightarrow> error + int" where
  "getRelativeContentOffset reg d offset distance =
     getRelativeOffset reg d offset distance (isContentOffset reg d)"

text \<open>
  The optional argument \<open>direction\<close> is \<open>None\<close> when the caller leaves it out. The content
  variant tests \<open>direction === undefined\<close>, the structural one \<open>!direction\<close>.
\<close>

definition getNearestContentOffset ::
  "registry \<Rightarrow> 'r item list \<Rightarrow> int \<Rightarrow> int option \<Rightarrow> error + int" where
  "getNearestContentOffset reg d offset direction =
     (case isContentOffset reg d offset of
        Inl e \<Rightarrow> Inl e
      | Inr content \<Rightarrow>
          if content then Inr offset
          else (case direction of
            None \<Rightarrow>
              (case getRelativeContentOffset reg d offset (-1) of
                 Inl e \<Rightarrow> Inl e
               | Inr left \<Rightarrow>
                   (case getRelativeContentOffset reg d offset 1 of
                      Inl e \<Rightarrow> Inl e
                    | Inr right \<Rightarrow> Inr (if offset - left < right - offset then left else right)))
          | Some dir \<Rightarrow> getRelativeContentOffset reg d offset (if dir > 0 then 1 else -1)))"

definition getRelativeStructuralOffset ::
  "registry \<Rightarrow> 'r item list \<Rightarrow> int \<Rightarrow> int \<Rightarrow> bool \<Rightarrow> error + int" where
  "getRelativeStructuralOffset reg d offset distance unrestricted =
     (if distance = 0 \<and> (offset = 0 \<or> offset = getLength d) then Inr offset
      else getRelativeOffset reg d offset distance
             (\<lambda>i. isStructuralOffset reg d i unrestricted))"

definition getNearestStructuralOffset ::
  "registry \<Rightarrow> 'r item list \<Rightarrow> int \<Rightarrow> int option \<Rightarrow> bool \<Rightarrow> error + int" where
  "getNearestStructuralOffset reg d offset direction unrestricted =
     (case isStructuralOffset reg d offset unrestricted of
        Inl e \<Rightarrow> Inl e
      | Inr structural \<Rightarrow>
          if structural then Inr offset
          else if direction = None \<or> direction = Some 0 then
            (case getRelativeStructuralOffset reg d offset (-1) unrestricted of
               Inl e \<Rightarrow> Inl e
             | Inr left \<Rightarrow>
                 (case getRelativeStructuralOffset reg d offset 1 unrestricted of
                    Inl e \<Rightarrow> Inl e
                  | Inr right \<Rightarrow> Inr (if offset - left < right - offset then left else right)))
          else getRelativeStructuralOffset reg d offset
                 (if the direction > 0 then 1 else -1) unrestricted)"

subsection \<open>Annotations and attributes at an offset\<close>

definition getCharacterData :: "'r item list \<Rightarrow> int \<Rightarrow> string" where
  "getCharacterData d offset =
     (case getData d offset of Chr c \<Rightarrow> c | AnnChr c _ \<Rightarrow> c | _ \<Rightarrow> [])"

text \<open>
  \<open>getAnnotationIndexesFromOffset\<close> up to its \<open>return\<close>: the stored array that the function
  copies with \<open>.slice()\<close>, or \<open>None\<close> where it returns a new empty array.
\<close>

definition annotationsArrayFromOffset ::
  "registry \<Rightarrow> 'r item list \<Rightarrow> int \<Rightarrow> bool \<Rightarrow> error + 'r option" where
  "annotationsArrayFromOffset reg d offset ignoreClose =
     (if offset < 0 \<or> offset > getLength d then Inl (OffsetOutOfBounds offset)
      else
        (case andE (Inr (\<not> ignoreClose))
               (andE (Inr (isCloseElementData d offset))
                     (notE (bindE (getType d offset)
                              (\<lambda>t. canNodeHaveChildren reg (js_string t))))) of
          Inl e \<Rightarrow> Inl e
        | Inr rewind \<Rightarrow>
            (case (if rewind then getRelativeContentOffset reg d offset (-1) else Inr offset) of
               Inl e \<Rightarrow> Inl e
             | Inr offset' \<Rightarrow>
                 (case getData d offset' of
                    Undefined \<Rightarrow> Inr None
                  | Chr _ \<Rightarrow> Inr None
                  | Elem e \<Rightarrow> Inr (annotations e)
                  | AnnChr _ a \<Rightarrow> Inr (Some a)))))"

text \<open>Where only the contents of the arrays matter, an array is the list of its indexes.\<close>

definition getAnnotationIndexesFromOffset ::
  "registry \<Rightarrow> nat list item list \<Rightarrow> int \<Rightarrow> bool \<Rightarrow> error + nat list" where
  "getAnnotationIndexesFromOffset reg d offset ignoreClose =
     (case annotationsArrayFromOffset reg d offset ignoreClose of
        Inl e \<Rightarrow> Inl e
      | Inr None \<Rightarrow> Inr []
      | Inr (Some a) \<Rightarrow> Inr a)"

text \<open>
  Where the identity of the arrays matters, the linear data holds addresses of arrays, and
  the arrays live in a store of arrays: the array at address \<open>r\<close> is \<open>h ! r\<close>. A new array
  gets the next free address. \<open>x.slice()\<close> and \<open>[]\<close> both make a new array.
\<close>

type_synonym arrays = "nat list list"

definition newArray :: "arrays \<Rightarrow> nat list \<Rightarrow> nat \<times> arrays" where
  "newArray h xs = (length h, h @ [xs])"

definition getAnnotationIndexesFromOffset_ref ::
  "registry \<Rightarrow> nat item list \<Rightarrow> arrays \<Rightarrow> int \<Rightarrow> bool \<Rightarrow> error + nat \<times> arrays" where
  "getAnnotationIndexesFromOffset_ref reg d h offset ignoreClose =
     (case annotationsArrayFromOffset reg d offset ignoreClose of
        Inl e \<Rightarrow> Inl e
      | Inr None \<Rightarrow> Inr (newArray h [])
      | Inr (Some r) \<Rightarrow> if r < length h then Inr (newArray h (h ! r)) else Inl TypeError)"

text \<open>The linear data that a store of arrays holds: each address replaced by its array.\<close>

fun derefItem :: "arrays \<Rightarrow> nat item \<Rightarrow> nat list item" where
  "derefItem h Undefined = Undefined"
| "derefItem h (Chr c) = Chr c"
| "derefItem h (AnnChr c r) = AnnChr c (h ! r)"
| "derefItem h (Elem e) =
     Elem \<lparr> type = type e, attributes = attributes e,
            annotations = map_option (\<lambda>r. h ! r) (annotations e),
            internal = internal e, originalDomElementsIndex = originalDomElementsIndex e \<rparr>"

fun itemRefs :: "'r item \<Rightarrow> 'r list" where
  "itemRefs (AnnChr c r) = [r]"
| "itemRefs (Elem e) = (case annotations e of None \<Rightarrow> [] | Some r \<Rightarrow> [r])"
| "itemRefs _ = []"

definition validRefs :: "arrays \<Rightarrow> nat item list \<Rightarrow> bool" where
  "validRefs h d = list_all (\<lambda>it. list_all (\<lambda>r. r < length h) (itemRefs it)) d"

text \<open>
  An element object that the code changes in place stays in its slot of the data:
  \<open>mutateElement\<close> writes the changed element back to the slot it was read from.
\<close>

fun updateElement :: "('r element \<Rightarrow> 'r element) \<Rightarrow> 'r item \<Rightarrow> 'r item" where
  "updateElement f (Elem e) = Elem (f e)"
| "updateElement f it = it"

definition mutateElement :: "'r item list \<Rightarrow> int \<Rightarrow> ('r element \<Rightarrow> 'r element) \<Rightarrow> 'r item list" where
  "mutateElement d offset f = setData d offset (updateElement f (getData d offset))"

definition setAnnotationIndexesAtOffset ::
  "nat list item list \<Rightarrow> int \<Rightarrow> nat list \<Rightarrow> nat list item list" where
  "setAnnotationIndexesAtOffset d offset indexes =
     (let isElement = isElementData d offset
      in if length indexes > 0 then
           (if isElement then mutateElement d offset (\<lambda>e. e\<lparr> annotations := Some indexes \<rparr>)
            else let character = getCharacterData d offset
                 in setData d offset (AnnChr character indexes))
         else
           (if isElement then mutateElement d offset (\<lambda>e. e\<lparr> annotations := None \<rparr>)
            else let character = getCharacterData d offset
                 in setData d offset (Chr character)))"

text \<open>
  \<open>value\<close> is \<open>None\<close> for \<open>undefined\<close>. Assigning to a key of an object keeps the position of
  a key that is there and appends a new one.
\<close>

definition setAttributeAtOffset ::
  "'r item list \<Rightarrow> int \<Rightarrow> string \<Rightarrow> jsval option \<Rightarrow> 'r item list" where
  "setAttributeAtOffset d offset key val =
     (if \<not> isElementData d offset then d
      else
        (case val of
           None \<Rightarrow>
             mutateElement d offset
               (\<lambda>e. case attributes e of
                       Some attrs \<Rightarrow> e\<lparr> attributes := Some (AList.delete key attrs) \<rparr>
                     | None \<Rightarrow> e)
         | Some v \<Rightarrow>
             mutateElement d offset
               (\<lambda>e. let attrs = (case attributes e of None \<Rightarrow> [] | Some attrs \<Rightarrow> attrs)
                     in e\<lparr> attributes := Some (AList.update key v attrs) \<rparr>)))"

subsection \<open>Counting elements outside the internal list\<close>

text \<open>
  \<open>limit\<close> is \<open>None\<close> when left out; the test \<open>limit && count >= limit\<close> also fails for
  \<open>0\<close>. The test \<open>type && ...\<close> fails for \<open>undefined\<close> and for the empty string.
\<close>

function countNonInternalElements_loop ::
  "registry \<Rightarrow> 'r item list \<Rightarrow> int option \<Rightarrow> int \<Rightarrow> int \<Rightarrow> int \<Rightarrow> int \<Rightarrow> error + int" where
  "countNonInternalElements_loop reg d limit i l internalDepth count =
     (if \<not> i < l then Inr count
      else
        (case getType d i of
          Inl e \<Rightarrow> Inl e
        | Inr ty \<Rightarrow>
            (case andE (Inr (ty \<noteq> None \<and> ty \<noteq> Some [])) (isNodeInternal reg (js_string ty)) of
               Inl e \<Rightarrow> Inl e
             | Inr isInt \<Rightarrow>
                 if isInt then
                   (if isOpenElementData d i
                    then countNonInternalElements_loop reg d limit (i + 1) l (internalDepth + 1) count
                    else countNonInternalElements_loop reg d limit (i + 1) l (internalDepth - 1) count)
                 else if internalDepth = 0 then
                   (if limit \<noteq> None \<and> limit \<noteq> Some 0 \<and> count + 1 \<ge> the limit then Inr (count + 1)
                    else countNonInternalElements_loop reg d limit (i + 1) l internalDepth (count + 1))
                 else countNonInternalElements_loop reg d limit (i + 1) l internalDepth count)))"
  by pat_completeness auto

termination
  by (relation "measure (\<lambda>(reg, d, limit, i, l, internalDepth, count). nat (l - i))") auto

declare countNonInternalElements_loop.simps [simp del]

definition countNonInternalElements :: "registry \<Rightarrow> 'r item list \<Rightarrow> int option \<Rightarrow> error + int" where
  "countNonInternalElements reg d limit =
     countNonInternalElements_loop reg d limit 0 (getLength d) 0 0"

definition hasContent :: "registry \<Rightarrow> 'r item list \<Rightarrow> error + bool" where
  "hasContent reg d =
     orE (bindE (countNonInternalElements reg d (Some 3)) (\<lambda>c. Inr (c > 2)))
         (andE (Inr (isElementData d 0))
         (andE (notE (bindE (getType d 0) (\<lambda>t. canNodeContainContent reg (js_string t))))
               (notE (bindE (getType d 0) (\<lambda>t. isNodeInternal reg (js_string t))))))"

subsection \<open>Annotation sets and the index-value store\<close>

text \<open>
  Modelled from the spec: \<open>ve.dm.IndexValueStore\<close> and \<open>ve.dm.AnnotationSet\<close>, whose files
  are not among the sources. The store maps an index to a stored value and \<open>index( value )\<close>
  is insert-or-find by equality of the value; \<open>value( index )\<close> fails for an unknown index.
  Here the store is the list of its values and an index is a position in it. An annotation
  set is the ordered list of the store indexes it holds; union, difference and filtering
  work on that list. Of an annotation, \<open>sanitize\<close> reads \<open>name\<close> and
  \<open>element.originalDomElementsIndex\<close>.
\<close>

record annotation =
  name :: string
  element :: "unit element"

type_synonym store = "annotation list"

definition store_value :: "store \<Rightarrow> nat \<Rightarrow> error + annotation" where
  "store_value st ix = (if ix < length st then Inr (st ! ix) else Inl (LookupError ix))"

fun store_values :: "store \<Rightarrow> nat list \<Rightarrow> error + annotation list" where
  "store_values st [] = Inr []"
| "store_values st (ix # ixs) =
     bindE (store_value st ix) (\<lambda>v. bindE (store_values st ixs) (\<lambda>vs. Inr (v # vs)))"

fun firstIndexOf :: "'a list \<Rightarrow> 'a \<Rightarrow> nat option" where
  "firstIndexOf [] v = None"
| "firstIndexOf (x # xs) v = (if x = v then Some 0 else map_option Suc (firstIndexOf xs v))"

definition store_index :: "store \<Rightarrow> annotation \<Rightarrow> nat \<times> store" where
  "store_index st v =
     (case firstIndexOf st v of Some ix \<Rightarrow> (ix, st) | None \<Rightarrow> (length st, st @ [v]))"

fun store_indexes :: "store \<Rightarrow> annotation list \<Rightarrow> nat list \<times> store" where
  "store_indexes st [] = ([], st)"
| "store_indexes st (v # vs) =
     (let (ix, st1) = store_index st v;
          (ixs, st2) = store_indexes st1 vs
      in (ix # ixs, st2))"

definition addSet :: "nat list \<Rightarrow> nat list \<Rightarrow> nat list" where
  "addSet a b = foldl (\<lambda>acc x. if x \<in> set acc then acc else acc @ [x]) [] (a @ b)"

definition removeSet :: "nat list \<Rightarrow> nat list \<Rightarrow> nat list" where
  "removeSet a b = filter (\<lambda>x. x \<notin> set b) a"

definition getAnnotationsFromOffset ::
  "registry \<Rightarrow> nat list item list \<Rightarrow> int \<Rightarrow> bool \<Rightarrow> error + nat list" where
  "getAnnotationsFromOffset reg d offset ignoreClose =
     getAnnotationIndexesFromOffset reg d offset ignoreClose"

definition setAnnotationsAtOffset ::
  "nat list item list \<Rightarrow> store \<Rightarrow> int \<Rightarrow> nat list \<Rightarrow> error + nat list item list \<times> store" where
  "setAnnotationsAtOffset d st offset annots =
     bindE (store_values st annots)
       (\<lambda>vs. let (ixs, st') = store_indexes st vs
             in Inr (setAnnotationIndexesAtOffset d offset ixs, st'))"

text \<open>
  \<open>getAnnotationsFromRange\<close>. \<open>left\<close> is \<open>None\<close> while the variable is undefined.
  \<open>getComparableAnnotationsFromSet\<close> compares annotation objects and belongs to
  \<open>ve.dm.AnnotationSet\<close>; it is the parameter \<open>comparable\<close>.
\<close>

function getAnnotationsFromRange_loop ::
  "registry \<Rightarrow> (nat list \<Rightarrow> nat list \<Rightarrow> nat list) \<Rightarrow> nat list item list \<Rightarrow> int \<Rightarrow> int \<Rightarrow> bool \<Rightarrow>
   int \<Rightarrow> nat list option \<Rightarrow> int \<Rightarrow> error + nat list" where
  "getAnnotationsFromRange_loop reg comparable d rstart rend all i left ignoreChildrenDepth =
     (if \<not> i < rend then Inr (case left of None \<Rightarrow> [] | Some l \<Rightarrow> l)
      else
        (case (if isElementData d i
               then bindE (getType d i) (\<lambda>t.
                      bindE (shouldIgnoreChildren reg (js_string t)) (\<lambda>ign.
                      bindE (isNodeContent reg (js_string t)) (\<lambda>content.
                        Inr (if ign then ignoreChildrenDepth + (if isOpenElementData d i then 1 else -1)
                             else ignoreChildrenDepth, \<not> content))))
               else Inr (ignoreChildrenDepth, False)) of
           Inl e \<Rightarrow> Inl e
         | Inr (depth, skip) \<Rightarrow>
             if skip \<or> depth > 0 then
               getAnnotationsFromRange_loop reg comparable d rstart rend all (i + 1) left depth
             else
               (case getAnnotationsFromOffset reg d i False of
                  Inl e \<Rightarrow> Inl e
                | Inr here \<Rightarrow>
                    (case left of
                       None \<Rightarrow>
                         if rend - rstart = 0 \<or> rend - rstart = 1 then Inr here
                         else getAnnotationsFromRange_loop reg comparable d rstart rend all (i + 1)
                                (Some here) depth
                     | Some l \<Rightarrow>
                         if all \<and> here \<noteq> [] then
                           getAnnotationsFromRange_loop reg comparable d rstart rend all (i + 1)
                             (Some (addSet l here)) depth
                         else if \<not> all then
                           (if here = [] then Inr []
                            else let l' = comparable l here
                                 in if l' = [] then Inr l'
                                    else getAnnotationsFromRange_loop reg comparable d rstart rend
                                           all (i + 1) (Some l') depth)
                         else getAnnotationsFromRange_loop reg comparable d rstart rend all (i + 1)
                                (Some l) depth))))"
  by pat_completeness auto

termination
  by (relation "measure (\<lambda>(reg, comparable, d, rstart, rend, all, i, left, depth). nat (rend - i))")
     auto

declare getAnnotationsFromRange_loop.simps [simp del]

definition getAnnotationsFromRange ::
  "registry \<Rightarrow> (nat list \<Rightarrow> nat list \<Rightarrow> nat list) \<Rightarrow> nat list item list \<Rightarrow> int \<Rightarrow> int \<Rightarrow> bool \<Rightarrow>
   error + nat list" where
  "getAnnotationsFromRange reg comparable d rstart rend all =
     getAnnotationsFromRange_loop reg comparable d rstart rend all rstart None 0"

subsection \<open>Sanitizing\<close>

record rules =
  blacklist :: "string list option"
  conversions :: "(string \<times> string) list option"
  removeOriginalDomElements :: bool
  plainText :: bool
  allowBreaks :: bool
  preserveHtmlWhitespace :: bool
  nodeSanitization :: bool
  keepEmptyContentBranches :: bool

text \<open>
  \<open>s.match( /\s/ )\<close>: the string holds a whitespace character. Strings are sequences of
  bytes in UTF-8, so the whitespace characters outside ASCII are the byte sequences that
  encode them.
\<close>

definition whitespaceAt :: "nat list \<Rightarrow> bool" where
  "whitespaceAt bs =
     (case bs of
        [] \<Rightarrow> False
      | b1 # r1 \<Rightarrow>
          (9 \<le> b1 \<and> b1 \<le> 13) \<or> b1 = 32 \<or>
          (case r1 of
             [] \<Rightarrow> False
           | b2 # r2 \<Rightarrow>
               (b1 = 0xC2 \<and> b2 = 0xA0) \<or>
               (case r2 of
                  [] \<Rightarrow> False
                | b3 # _ \<Rightarrow>
                    (b1 = 0xE1 \<and> b2 = 0x9A \<and> b3 = 0x80) \<or>
                    (b1 = 0xE2 \<and> b2 = 0x80 \<and>
                       ((0x80 \<le> b3 \<and> b3 \<le> 0x8A) \<or> b3 = 0xA8 \<or> b3 = 0xA9 \<or> b3 = 0xAF)) \<or>
                    (b1 = 0xE2 \<and> b2 = 0x81 \<and> b3 = 0x9F) \<or>
                    (b1 = 0xE3 \<and> b2 = 0x80 \<and> b3 = 0x80) \<or>
                    (b1 = 0xEF \<and> b2 = 0xBB \<and> b3 = 0xBF))))"

fun matchesWhitespace :: "string \<Rightarrow> bool" where
  "matchesWhitespace [] = False"
| "matchesWhitespace (c # cs) =
     (whitespaceAt (map of_char (c # cs)) \<or> matchesWhitespace cs)"

text \<open>
  \<open>ve.getProp( item, 'internal', key )\<close>, tested for truthiness, and the cleanup
  \<open>delete item.internal[ key ]\<close> followed by dropping an \<open>internal\<close> object left empty.
\<close>

definition getInternalProp :: "'r item \<Rightarrow> string \<Rightarrow> bool" where
  "getInternalProp it key =
     (case it of
        Elem e \<Rightarrow>
          (case internal e of
             None \<Rightarrow> False
           | Some obj \<Rightarrow> (case map_of obj key of None \<Rightarrow> False | Some v \<Rightarrow> truthy v))
      | _ \<Rightarrow> False)"

definition deleteInternalProp :: "string \<Rightarrow> 'r element \<Rightarrow> 'r element" where
  "deleteInternalProp key e =
     (case internal e of
        None \<Rightarrow> e
      | Some obj \<Rightarrow>
          (let obj' = AList.delete key obj
           in if obj' = [] then e\<lparr> internal := None \<rparr> else e\<lparr> internal := Some obj' \<rparr>))"

definition newElement :: "string \<Rightarrow> 'r element" where
  "newElement ty = \<lparr> type = ty, attributes = None, annotations = None, internal = None,
                     originalDomElementsIndex = None \<rparr>"

text \<open>
  The variables of the loop of \<open>sanitize\<close>, with the data and the store it changes.
  \<open>contentElement\<close> is a reference to the element object in a slot before \<open>i\<close>: the loop
  never goes back before \<open>i\<close> and never splices there, so the object stays in the slot it
  was taken from, and later changes to it in place are seen through the reference. It is
  the offset of that slot; \<open>None\<close> is \<open>undefined\<close> or \<open>null\<close>.
\<close>

record sanitize_state =
  s_data :: "nat list item list"
  s_store :: store
  s_i :: int
  s_len :: int
  s_type :: "string option"
  s_contentElement :: "int option"

text \<open>
  The branch of the loop body for an element. The boolean of the result says that the
  branch ended in \<open>continue\<close>.
\<close>

definition sanitize_element :: "registry \<Rightarrow> rules \<Rightarrow> sanitize_state \<Rightarrow> error + bool \<times> sanitize_state" where
  "sanitize_element reg rules s =
     (let i = s_i s; d0 = s_data s in
      bindE (getType d0 i) (\<lambda>t0.
      let ty0 = js_string t0 in
      bindE (canNodeContainContent reg ty0) (\<lambda>canContain.
      let isOpen = isOpenElementData d0 i;
          conv = (case conversions rules of
                    None \<Rightarrow> None
                  | Some c \<Rightarrow> (case map_of c ty0 of
                                 None \<Rightarrow> None
                               | Some t \<Rightarrow> if t \<noteq> [] then Some t else None));
          ty1 = (case conv of None \<Rightarrow> ty0 | Some t \<Rightarrow> t);
          d1 = (case conv of
                  None \<Rightarrow> d0
                | Some t \<Rightarrow>
                    mutateElement d0 i (\<lambda>e. e\<lparr> type := (if \<not> isOpen then ''/'' else []) @ t \<rparr>));
          toParagraph = (plainText rules \<and> ty1 \<noteq> ''paragraph'' \<and> canContain);
          ty2 = (if toParagraph then ''paragraph'' else ty1);
          d2 = (if toParagraph
                then setData d1 i
                       (Elem (newElement ((if isCloseElementData d1 i then ''/'' else []) @ ty2)))
                else d1);
          s2 = s\<lparr> s_type := Some ty2 \<rparr>
      in
        if (case blacklist rules of None \<Rightarrow> False | Some bl \<Rightarrow> ty2 \<in> set bl) \<or>
           (plainText rules \<and> ty2 \<noteq> ''paragraph'' \<and> ty2 \<noteq> ''internalList'')
        then
          (let d3 = splice d2 i 1 [];
               d4 = (if isOpen \<and> getInternalProp (getData d3 i) ''generated''
                     then mutateElement d3 i (deleteInternalProp ''generated'')
                     else d3)
           in Inr (True, s2\<lparr> s_data := d4, s_len := s_len s - 1, s_i := i - 1 \<rparr>))
        else if \<not> allowBreaks rules \<and> ty2 = ''break'' \<and> s_contentElement s \<noteq> None
        then
          (if isOpenElementData d2 (i - 1) \<and> isCloseElementData d2 (i + 2)
           then Inr (True, s2\<lparr> s_data := splice d2 i 2 [], s_len := s_len s - 2, s_i := i - 1 \<rparr>)
           else
             (let contentElement = getData d2 (the (s_contentElement s))
              in Inr (True, s2\<lparr> s_data := splice d2 i 2
                                  [Elem (newElement (''/'' @ js_string (item_type contentElement))),
                                   contentElement],
                               s_i := i - 1 \<rparr>)))
        else if \<not> keepEmptyContentBranches rules \<and> isOpen \<and> isCloseElementData d2 (i + 1) \<and>
                \<not> getInternalProp (getData d2 i) ''generated'' \<and> canContain
        then Inr (True, s2\<lparr> s_data := splice d2 i 2 [], s_len := s_len s - 2, s_i := i - 1 \<rparr>)
        else
          (let d3 = (if \<not> preserveHtmlWhitespace rules \<and> getInternalProp (getData d2 i) ''whitespace''
                     then mutateElement d2 i (deleteInternalProp ''whitespace'')
                     else d2);
               ce = (if canContain then (if isOpen then Some i else None)
                     else s_contentElement s)
           in Inr (False, s2\<lparr> s_data := d3, s_contentElement := ce \<rparr>)))))"

text \<open>The branch of the loop body for an item that is not an element.\<close>

definition sanitize_character :: "registry \<Rightarrow> rules \<Rightarrow> sanitize_state \<Rightarrow> error + bool \<times> sanitize_state" where
  "sanitize_character reg rules s =
     (let i = s_i s; d = s_data s in
      bindE (andE (Inr (getCharacterData d i = [CHR 0x0A]))
                  (notE (doesNodeHaveSignificantWhitespace reg (js_string (s_type s)))))
        (\<lambda>newline.
           if newline then
             (if matchesWhitespace (getCharacterData d (i + 1)) \<or>
                 matchesWhitespace (getCharacterData d (i - 1))
              then Inr (True, s\<lparr> s_data := splice d i 1 [], s_len := s_len s - 1, s_i := i - 1 \<rparr>)
              else
                (case getData d i of
                   Chr c \<Rightarrow> Inr (False, s\<lparr> s_data := setData d i (Chr '' '') \<rparr>)
                 | AnnChr c a \<Rightarrow> Inr (False, s\<lparr> s_data := setData d i (AnnChr '' '' a) \<rparr>)
                 | _ \<Rightarrow> Inl TypeError))
           else Inr (False, s)))"

text \<open>
  The end of the loop body: the annotations at \<open>i\<close> are cleared or filtered, then an
  opening element goes through the per-type sanitizer and loses its reference to the
  original DOM elements. The per-type sanitizer \<open>nodeClass.static.sanitize\<close> belongs to the
  node classes, which are outside these sources: \<open>nodeSanitize\<close> gives, for a type that
  \<open>ve.dm.modelRegistry\<close> knows, what it does to the element.
\<close>

definition sanitize_annotations ::
  "registry \<Rightarrow> (string \<Rightarrow> (rules \<Rightarrow> nat list element \<Rightarrow> nat list element) option) \<Rightarrow> rules \<Rightarrow>
   nat list \<Rightarrow> sanitize_state \<Rightarrow> error + sanitize_state" where
  "sanitize_annotations reg nodeSanitize rules setToRemove s =
     (let i = s_i s in
      bindE (getAnnotationsFromOffset reg (s_data s) i True) (\<lambda>annots.
      bindE (if annots \<noteq> [] then
               (if plainText rules then setAnnotationsAtOffset (s_data s) (s_store s) i []
                else if length setToRemove \<noteq> 0
                then setAnnotationsAtOffset (s_data s) (s_store s) i (removeSet annots setToRemove)
                else Inr (s_data s, s_store s))
             else Inr (s_data s, s_store s)) (\<lambda>(d1, st1).
      if isOpenElementData d1 i then
        bindE (if nodeSanitization rules then
                 bindE (getType d1 i) (\<lambda>t.
                   case nodeSanitize (js_string t) of
                     None \<Rightarrow> Inl TypeError
                   | Some f \<Rightarrow> Inr (mutateElement d1 i (f rules)))
               else Inr d1) (\<lambda>d2.
        let d3 = (if removeOriginalDomElements rules
                  then mutateElement d2 i (\<lambda>e. e\<lparr> originalDomElementsIndex := None \<rparr>)
                  else d2)
        in Inr (s\<lparr> s_data := d3, s_store := st1 \<rparr>))
      else Inr (s\<lparr> s_data := d1, s_store := st1 \<rparr>))))"

text \<open>One pass through the loop body, up to the \<open>i++\<close> of the \<open>for\<close> statement.\<close>

definition sanitize_body ::
  "registry \<Rightarrow> (string \<Rightarrow> (rules \<Rightarrow> nat list element \<Rightarrow> nat list element) option) \<Rightarrow> rules \<Rightarrow>
   nat list \<Rightarrow> sanitize_state \<Rightarrow> error + sanitize_state" where
  "sanitize_body reg nodeSanitize rules setToRemove s =
     bindE (if isElementData (s_data s) (s_i s) then sanitize_element reg rules s
            else sanitize_character reg rules s)
       (\<lambda>(continue, s1).
          if continue then Inr s1
          else sanitize_annotations reg nodeSanitize rules setToRemove s1)"

text \<open>
  The loop \<open>for ( i = 0, len = this.getLength(); i < len; i++ )\<close>. Splitting on a break
  replaces two items by two items without moving on, so the loop has no bound that holds
  for every rule set: it runs on fuel, one unit for each pass, and \<open>None\<close> says that the
  fuel ran out before the loop ended.
\<close>

fun sanitize_loop ::
  "nat \<Rightarrow> registry \<Rightarrow> (string \<Rightarrow> (rules \<Rightarrow> nat list element \<Rightarrow> nat list element) option) \<Rightarrow> rules \<Rightarrow>
   nat list \<Rightarrow> sanitize_state \<Rightarrow> (error + sanitize_state) option" where
  "sanitize_loop fuel reg nodeSanitize rules setToRemove s =
     (if \<not> s_i s < s_len s then Some (Inr s)
      else case fuel of
        0 \<Rightarrow> None
      | Suc fuel' \<Rightarrow>
          (case sanitize_body reg nodeSanitize rules setToRemove s of
             Inl e \<Rightarrow> Some (Inl e)
           | Inr s1 \<Rightarrow>
               sanitize_loop fuel' reg nodeSanitize rules setToRemove (s1\<lparr> s_i := s_i s1 + 1 \<rparr>)))"

text \<open>
  Before the loop: the annotations in use, and unless the rules ask for plain text, the
  references to original DOM elements are deleted from these annotations in the store and
  the set of annotations to remove is chosen by name.
\<close>

fun removeOriginalDomElementsFromAnnotations :: "store \<Rightarrow> nat list \<Rightarrow> error + store" where
  "removeOriginalDomElementsFromAnnotations st [] = Inr st"
| "removeOriginalDomElementsFromAnnotations st (ix # ixs) =
     bindE (store_value st ix) (\<lambda>ann.
       removeOriginalDomElementsFromAnnotations
         (if originalDomElementsIndex (element ann) \<noteq> None
          then st[ix := ann\<lparr> element := (element ann)\<lparr> originalDomElementsIndex := None \<rparr> \<rparr>]
          else st)
         ixs)"

fun filterAnnotations :: "store \<Rightarrow> (annotation \<Rightarrow> bool) \<Rightarrow> nat list \<Rightarrow> error + nat list" where
  "filterAnnotations st callback [] = Inr []"
| "filterAnnotations st callback (ix # ixs) =
     bindE (store_value st ix) (\<lambda>ann.
     bindE (filterAnnotations st callback ixs) (\<lambda>rest.
       Inr (if callback ann then ix # rest else rest)))"

definition sanitize ::
  "nat \<Rightarrow> registry \<Rightarrow> (nat list \<Rightarrow> nat list \<Rightarrow> nat list) \<Rightarrow>
   (string \<Rightarrow> (rules \<Rightarrow> nat list element \<Rightarrow> nat list element) option) \<Rightarrow>
   nat list item list \<Rightarrow> store \<Rightarrow> rules \<Rightarrow> (error + nat list item list \<times> store) option" where
  "sanitize fuel reg comparable nodeSanitize d st rules =
     (case getAnnotationsFromRange reg comparable d 0 (getLength d) True of
        Inl e \<Rightarrow> Some (Inl e)
      | Inr allAnnotations \<Rightarrow>
          (case (if plainText rules then Inr (st, [])
                 else
                   bindE (if removeOriginalDomElements rules
                          then removeOriginalDomElementsFromAnnotations st allAnnotations
                          else Inr st) (\<lambda>st1.
                   bindE (filterAnnotations st1
                            (\<lambda>ann. (case blacklist rules of None \<Rightarrow> False
                                     | Some bl \<Rightarrow> name ann \<in> set bl) \<or>
                                    (name ann = ''textStyle/span'' \<and> removeOriginalDomElements rules))
                            allAnnotations) (\<lambda>setToRemove.
                     Inr (st1, setToRemove)))) of
             Inl e \<Rightarrow> Some (Inl e)
           | Inr (st1, setToRemove) \<Rightarrow>
               (case sanitize_loop fuel reg nodeSanitize rules setToRemove
                       \<lparr> s_data = d, s_store = st1, s_i = 0, s_len = getLength d,
                         s_type = None, s_contentElement = None \<rparr> of
                  None \<Rightarrow> None
                | Some (Inl e) \<Rightarrow> Some (Inl e)
                | Some (Inr s) \<Rightarrow> Some (Inr (s_data s, s_store s)))))"

section \<open>Well-formed data, and the vocabulary of the properties\<close>

text \<open>
  The type of an element without the slash of a closing marker. Linear data is registered
  when it has no hole and the type of every element is in the registry.
\<close>

definition baseType :: "string \<Rightarrow> string" where
  "baseType t = (if isCloseName t then slice1 t else t)"

fun registeredItem :: "registry \<Rightarrow> 'r item \<Rightarrow> bool" where
  "registeredItem reg Undefined = False"
| "registeredItem reg (Elem e) = (reg (baseType (type e)) \<noteq> None)"
| "registeredItem reg _ = True"

definition registeredData :: "registry \<Rightarrow> 'r item list \<Rightarrow> bool" where
  "registeredData reg d = list_all (registeredItem reg) d"

text \<open>An item is text when it is a plain or an annotated character.\<close>

definition isText :: "'r item \<Rightarrow> bool" where
  "isText it = (isString it \<or> isArray it)"

definition isClosingOf :: "'r item \<Rightarrow> string \<Rightarrow> bool" where
  "isClosingOf it t = (item_type it = Some (CHR ''/'' # t))"

definition isOpeningOf :: "'r item \<Rightarrow> string \<Rightarrow> bool" where
  "isOpeningOf it t = (item_type it = Some t \<and> \<not> isCloseName t)"

text \<open>
  The direction in which \<open>getRelativeOffset\<close> sets out (\<open>True\<close> is to the right), the
  number of valid offsets it is to pass, and the valid offsets that lie beyond the starting
  offset in a direction, the nearest first.
\<close>

definition searchForward :: "int \<Rightarrow> int \<Rightarrow> int \<Rightarrow> bool" where
  "searchForward len offset distance =
     (if offset \<le> 0 then True else if offset \<ge> len then False
      else (if distance = 0 then 1 else distance) > 0)"

definition searchSteps :: "int \<Rightarrow> nat" where
  "searchSteps distance = (if distance = 0 then 1 else nat (abs distance))"

definition offsetsBeyond :: "(int \<Rightarrow> bool) \<Rightarrow> int \<Rightarrow> int \<Rightarrow> bool \<Rightarrow> int list" where
  "offsetsBeyond p len start forward =
     (if forward then filter p [start + 1..len] else filter p (rev [0..start - 1]))"

text \<open>The \<open>n\<close>-th offset of a list of candidates, the last one when there are fewer, and
  \<open>fallback\<close> when there is none.\<close>

definition nthOrLast :: "nat \<Rightarrow> int \<Rightarrow> int list \<Rightarrow> int" where
  "nthOrLast n fallback xs =
     (if xs = [] then fallback else if n \<le> length xs then xs ! (n - 1) else last xs)"

text \<open>
  The search of \<open>getRelativeOffset\<close> keeps count of the nodes it is inside of whose
  children are ignored. \<open>ignoresChildrenAt\<close> says that the item at a data offset is an
  element of such a type. \<open>ignoreDelta\<close> is what the step to offset \<open>i\<close> adds to the count:
  the step goes over one item, and adds 1 if it enters such a node there (going right over
  its opening element, or left over its closing marker), -1 if it leaves one.
  \<open>ignoreDepth\<close> is the count at offset \<open>j\<close> on the way from the start: the sum over the
  steps taken.
\<close>

definition ignoresChildrenAt :: "registry \<Rightarrow> 'r item list \<Rightarrow> int \<Rightarrow> bool" where
  "ignoresChildrenAt reg d x =
     (isElementData d x \<and>
      bindE (getType d x) (\<lambda>t. shouldIgnoreChildren reg (js_string t)) = Inr True)"

definition ignoreDelta :: "registry \<Rightarrow> 'r item list \<Rightarrow> bool \<Rightarrow> int \<Rightarrow> int" where
  "ignoreDelta reg d forward i =
     (let x = i + (if forward then -1 else 0)
      in if ignoresChildrenAt reg d x
         then (if forward = isOpenElementData d x then 1 else -1)
         else 0)"

definition ignoreDepth :: "registry \<Rightarrow> 'r item list \<Rightarrow> int \<Rightarrow> bool \<Rightarrow> int \<Rightarrow> int" where
  "ignoreDepth reg d start forward j =
     sum_list (map (ignoreDelta reg d forward) (if forward then [start + 1..j] else [j..start - 1]))"

text \<open>
  The offsets beyond the start in a direction, the nearest first. The start is not inside
  an ignored node, for a direction, when the count never falls below 0 on the way. An
  offset is reachable when it is valid and the count is 0 there; \<open>reachableBeyond\<close> lists
  the reachable offsets beyond the start, the nearest first.
\<close>

definition searchOffsets :: "int \<Rightarrow> int \<Rightarrow> bool \<Rightarrow> int list" where
  "searchOffsets len start forward = (if forward then [start + 1..len] else rev [0..start - 1])"

definition notInsideIgnored :: "registry \<Rightarrow> 'r item list \<Rightarrow> int \<Rightarrow> bool \<Rightarrow> bool" where
  "notInsideIgnored reg d start forward =
     list_all (\<lambda>j. 0 \<le> ignoreDepth reg d start forward j)
       (searchOffsets (getLength d) start forward)"

definition reachable :: "registry \<Rightarrow> 'r item list \<Rightarrow> (int \<Rightarrow> bool) \<Rightarrow> int \<Rightarrow> bool \<Rightarrow> int \<Rightarrow> bool" where
  "reachable reg d p start forward j = (p j \<and> ignoreDepth reg d start forward j = 0)"

definition reachableBeyond ::
  "registry \<Rightarrow> 'r item list \<Rightarrow> (int \<Rightarrow> bool) \<Rightarrow> int \<Rightarrow> bool \<Rightarrow> int list" where
  "reachableBeyond reg d p start forward =
     filter (reachable reg d p start forward) (searchOffsets (getLength d) start forward)"

text \<open>
  An offset is at an edge of the search when it is offset 0 going left, and going right
  when it is the length of the data or comes just after an element of type
  \<open>internalList\<close>. The search turns around where, before any reachable offset, it comes to
  an offset at an edge that is not valid.
\<close>

definition atEdge :: "'r item list \<Rightarrow> bool \<Rightarrow> int \<Rightarrow> bool" where
  "atEdge d forward i =
     (if forward then i = getLength d \<or> getType d (i - 1) = Inr (Some ''internalList'')
      else i = 0)"

definition turnsAround :: "registry \<Rightarrow> 'r item list \<Rightarrow> (int \<Rightarrow> bool) \<Rightarrow> int \<Rightarrow> bool \<Rightarrow> bool" where
  "turnsAround reg d p start forward =
     list_ex (\<lambda>k. \<not> p k \<and> atEdge d forward k)
       (takeWhile (\<lambda>j. \<not> reachable reg d p start forward j)
          (searchOffsets (getLength d) start forward))"

text \<open>
  The way from the start to offset \<open>j\<close> in a direction is clear when \<open>j\<close> lies beyond the
  start, the count of ignored nodes is 0 at \<open>j\<close> and not below 0 before, no offset before
  \<open>j\<close> is at an edge, and the items that the search steps over to get to \<open>j\<close> are
  registered. The way to the right is blocked at \<open>e\<close> when the same holds up to \<open>e\<close>, but
  \<open>e\<close> is at an edge (and the count may be above 0 there).
\<close>

definition clearWay :: "registry \<Rightarrow> 'r item list \<Rightarrow> int \<Rightarrow> bool \<Rightarrow> int \<Rightarrow> bool" where
  "clearWay reg d start forward j =
     ((if forward then start < j \<and> j \<le> getLength d else 0 \<le> j \<and> j < start) \<and>
      ignoreDepth reg d start forward j = 0 \<and>
      list_all (\<lambda>k. 0 \<le> ignoreDepth reg d start forward k \<and> \<not> atEdge d forward k)
        (if forward then [start + 1..j - 1] else [j + 1..start - 1]) \<and>
      list_all (\<lambda>x. registeredItem reg (getData d x))
        (if forward then [start..j - 1] else [j..start - 1]))"

definition blockedWay :: "registry \<Rightarrow> 'r item list \<Rightarrow> int \<Rightarrow> int \<Rightarrow> bool" where
  "blockedWay reg d start e =
     (start < e \<and> e \<le> getLength d \<and> atEdge d True e \<and>
      0 \<le> ignoreDepth reg d start True e \<and>
      list_all (\<lambda>k. 0 \<le> ignoreDepth reg d start True k \<and> \<not> atEdge d True k) [start + 1..e - 1] \<and>
      list_all (\<lambda>x. registeredItem reg (getData d x)) [start..e - 1])"

subsection \<open>An example registry and example documents\<close>

definition branchStatic :: node_static where
  "branchStatic = \<lparr> childNodeTypes = None, parentNodeTypes = None, suggestedParentNodeTypes = None,
     canContainContent = False, isContent = False, isWrapped = True, isUnwrappable = False,
     isFocusable = False, hasSignificantWhitespace = False, handlesOwnChildren = False,
     ignoreChildren = False, isInternal = False, isDeletable = True,
     blacklistedAnnotationTypes = [], defaultAttributes = [] \<rparr>"

definition exampleRegistry :: registry where
  "exampleRegistry =
     [''paragraph'' \<mapsto> branchStatic\<lparr> canContainContent := True \<rparr>,
      ''heading'' \<mapsto> branchStatic\<lparr> canContainContent := True,
                                     defaultAttributes := [(''level'', JNum 1)] \<rparr>,
      ''list'' \<mapsto> branchStatic\<lparr> childNodeTypes := Some [''listItem''] \<rparr>,
      ''listItem'' \<mapsto> branchStatic\<lparr> parentNodeTypes := Some [''list''] \<rparr>,
      ''inlineImage'' \<mapsto> branchStatic\<lparr> childNodeTypes := Some [], isContent := True \<rparr>,
      ''alienBlock'' \<mapsto> branchStatic\<lparr> childNodeTypes := Some [], ignoreChildren := True \<rparr>,
      ''alienInline'' \<mapsto> branchStatic\<lparr> childNodeTypes := Some [], isContent := True,
                                         ignoreChildren := True \<rparr>,
      ''internalList'' \<mapsto> branchStatic\<lparr> isInternal := True \<rparr>]"

definition el :: "string \<Rightarrow> 'r item" where
  "el ty = Elem (newElement ty)"

definition exampleData :: "nat list item list" where
  "exampleData =
     [el ''paragraph'', Chr ''a'', AnnChr ''b'' [0], el ''inlineImage'', el ''/inlineImage'',
      el ''/paragraph'', el ''heading'', el ''/heading'', el ''list'', el ''listItem'',
      el ''/listItem'', el ''/list'']"

definition emptyParagraphDocument :: "nat list item list" where
  "emptyParagraphDocument =
     [el ''paragraph'', el ''/paragraph'', el ''internalList'', Chr ''x'', el ''/internalList'']"

definition alienBlockDocument :: "nat list item list" where
  "alienBlockDocument = [el ''alienBlock'', el ''/alienBlock'']"

definition alienParagraph :: "nat list item list" where
  "alienParagraph =
     [el ''paragraph'', Chr ''a'', el ''alienInline'', el ''/alienInline'', Chr ''b'', el ''/paragraph'']"

definition twoParagraphs :: "nat list item list" where
  "twoParagraphs =
     [el ''paragraph'', Chr ''a'', el ''/paragraph'', el ''paragraph'', Chr ''b'', el ''/paragraph'']"

definition abParagraph :: "nat list item list" where
  "abParagraph = [el ''paragraph'', Chr ''a'', Chr ''b'', el ''/paragraph'']"

definition annotatedRefs :: "nat item list" where
  "annotatedRefs =
     [el ''paragraph'', AnnChr ''a'' 0, Elem ((newElement ''inlineImage'')\<lparr> annotations := Some 1 \<rparr>),
      el ''/inlineImage'', el ''/paragraph'']"

definition annotatedArrays :: arrays where
  "annotatedArrays = [ [7], [7, 9] ]"

text \<open>
  The rules object \<open>{ plainText: true }\<close>: every other rule is absent. The document of a
  content branch of type \<open>t\<close> with opening element \<open>he\<close> around the characters \<open>cs\<close>,
  each annotated with the annotation of index \<open>b\<close>, and the paragraph around the same
  characters without annotations, both elements holding nothing but their type.
\<close>

definition plainTextRules :: rules where
  "plainTextRules = \<lparr> blacklist = None, conversions = None, removeOriginalDomElements = False,
     plainText = True, allowBreaks = False, preserveHtmlWhitespace = False,
     nodeSanitization = False, keepEmptyContentBranches = False \<rparr>"

definition headingDocument :: "nat list element \<Rightarrow> string \<Rightarrow> nat \<Rightarrow> string list \<Rightarrow> nat list item list" where
  "headingDocument he t b cs =
     Elem he # map (\<lambda>c. AnnChr c [b]) cs @ [Elem (newElement (CHR ''/'' # t))]"

definition paragraphDocument :: "string list \<Rightarrow> nat list item list" where
  "paragraphDocument cs =
     Elem (newElement ''paragraph'') # map Chr cs @ [Elem (newElement ''/paragraph'')]"

text \<open>
  A store that holds one bold annotation, a comparison of annotation sets that takes
  annotations as comparable when they are the same one, a heading of level 2 around two
  bold characters, and a heading around one bold newline.
\<close>

definition boldStore :: store where
  "boldStore = [\<lparr> name = ''textStyle/bold'', element = newElement ''textStyle/bold'' \<rparr>]"

definition sameAnnotations :: "nat list \<Rightarrow> nat list \<Rightarrow> nat list" where
  "sameAnnotations l h = filter (\<lambda>ix. ix \<in> set h) l"

definition boldHeading :: "nat list item list" where
  "boldHeading =
     [Elem ((newElement ''heading'')\<lparr> attributes := Some [(''level'', JNum 2)] \<rparr>),
      AnnChr ''a'' [0], AnnChr ''b'' [0], el ''/heading'']"

definition newlineHeading :: "nat list item list" where
  "newlineHeading = [el ''heading'', AnnChr [CHR 0x0A] [0], el ''/heading'']"

text \<open>
  A registry with one type that blacklists bold annotations, and the lookup of an
  annotation factory that knows the bold annotation class only. Classes and annotations
  are stood for by names here: an annotation is an instance of the class whose name it
  bears.
\<close>

definition blacklistRegistry :: registry where
  "blacklistRegistry =
     [''preformatted'' \<mapsto> branchStatic\<lparr> canContainContent := True,
                                          blacklistedAnnotationTypes := [''textStyle/bold''] \<rparr>]"

definition boldClasses :: "string \<Rightarrow> string option" where
  "boldClasses = [''textStyle/bold'' \<mapsto> ''BoldAnnotation'']"

text \<open>
  A document with a table, a type that the example registry does not know; a paragraph
  followed by the internal list; two paragraphs followed by the internal list; a
  paragraph that begins with an inline node whose children are ignored; and a list around
  an internal list that holds a paragraph.
\<close>

definition tableDocument :: "nat list item list" where
  "tableDocument =
     [el ''paragraph'', el ''table'', el ''/table'', el ''inlineImage'', el ''/inlineImage'',
      el ''/paragraph'']"

definition abcDocument :: "nat list item list" where
  "abcDocument =
     [el ''paragraph'', Chr ''a'', Chr ''b'', Chr ''c'', el ''/paragraph'',
      el ''internalList'', el ''/internalList'']"

definition twoParagraphsDocument :: "nat list item list" where
  "twoParagraphsDocument =
     [el ''paragraph'', Chr ''a'', el ''/paragraph'', el ''paragraph'', Chr ''b'', el ''/paragraph'',
      el ''internalList'', el ''/internalList'']"

definition alienFirstParagraph :: "nat list item list" where
  "alienFirstParagraph =
     [el ''paragraph'', el ''alienInline'', el ''/alienInline'', Chr ''a'', Chr ''b'', el ''/paragraph'']"

definition listAroundInternalList :: "nat list item list" where
  "listAroundInternalList =
     [el ''paragraph'', Chr ''a'', el ''/paragraph'', el ''list'', el ''internalList'',
      el ''paragraph'', Chr ''b'', el ''/paragraph'', el ''/internalList'', el ''/list'']"

section \<open>Properties\<close>

text \<open>
  The definitions that evaluate the functions on the example documents.
\<close>

lemmas offset_eval =
  getRelativeOffset_def getRelativeOffset_loop.simps getRelativeContentOffset_def
  getRelativeStructuralOffset_def getNearestContentOffset_def getNearestStructuralOffset_def
  isContentOffset_def isStructuralOffset_def getLength_def getData_def getType_def
  isElementData_def isOpenElementData_def isCloseElementData_def dirInt_def
  shouldIgnoreChildren_def isNodeContent_def canNodeContainContent_def canNodeHaveChildren_def
  canNodeHaveChildrenNotContent_def getParentNodeTypes_def getChildNodeTypes_def
  andE_def orE_def notE_def bindE_def js_string_def isCloseName_def slice1_def
  el_def newElement_def exampleRegistry_def branchStatic_def

lemmas search_eval =
  reachableBeyond_def reachable_def turnsAround_def atEdge_def notInsideIgnored_def
  searchOffsets_def ignoreDepth_def ignoreDelta_def ignoresChildrenAt_def searchForward_def
  searchSteps_def upto.simps

lemmas way_eval =
  clearWay_def blockedWay_def atEdge_def ignoreDepth_def ignoreDelta_def ignoresChildrenAt_def
  baseType_def upto.simps

subsection \<open>The node factory\<close>

lemma blacklist_loop_result:
  "blacklist_loop annotationClass instanceOf bl ann = Inr True \<or>
   blacklist_loop annotationClass instanceOf bl ann = Inr False \<or>
   blacklist_loop annotationClass instanceOf bl ann = Inl TypeError"
  by (induction bl) (auto split: option.splits)

lemma blacklist_loop_known:
  "\<forall>b \<in> set bl. annotationClass b \<noteq> None \<Longrightarrow>
   blacklist_loop annotationClass instanceOf bl ann =
     Inr (\<forall>b \<in> set bl. \<forall>c. annotationClass b = Some c \<longrightarrow> \<not> instanceOf ann c)"
  by (induction bl) (auto split: option.splits)

text \<open>
  C8, as the code has it. For a type name that is not in the registry, every query of the
  node factory raises the unknown-type error for that name instead of returning a default.
  For a registered type name every query returns a value, except
  \<open>canNodeTakeAnnotationType\<close>: it returns a value when the annotation factory knows every
  annotation type on the blacklist of the node type (true when the annotation is an
  instance of none of their classes), and in any case it either returns or raises the
  \<open>TypeError\<close> of \<open>instanceof\<close>, never the unknown-type error.
\<close>

theorem nodeFactory_unknown_type_raises:
  "(reg t = None \<longrightarrow>
      canNodeContainContent reg t = Inl (UnknownNodeType t) \<and>
      isNodeContent reg t = Inl (UnknownNodeType t) \<and>
      canNodeHaveChildren reg t = Inl (UnknownNodeType t) \<and>
      getChildNodeTypes reg t = Inl (UnknownNodeType t) \<and>
      getParentNodeTypes reg t = Inl (UnknownNodeType t) \<and>
      getSuggestedParentNodeTypes reg t = Inl (UnknownNodeType t) \<and>
      canNodeHaveChildrenNotContent reg t = Inl (UnknownNodeType t) \<and>
      isNodeWrapped reg t = Inl (UnknownNodeType t) \<and>
      isNodeUnwrappable reg t = Inl (UnknownNodeType t) \<and>
      canNodeTakeAnnotationType annotationClass instanceOf reg t ann = Inl (UnknownNodeType t) \<and>
      isNodeFocusable reg t = Inl (UnknownNodeType t) \<and>
      doesNodeHaveSignificantWhitespace reg t = Inl (UnknownNodeType t) \<and>
      doesNodeHandleOwnChildren reg t = Inl (UnknownNodeType t) \<and>
      shouldIgnoreChildren reg t = Inl (UnknownNodeType t) \<and>
      isNodeInternal reg t = Inl (UnknownNodeType t) \<and>
      isNodeDeletable reg t = Inl (UnknownNodeType t) \<and>
      (getDataElement reg t attrs :: error + 'r element) = Inl (UnknownNodeType t)) \<and>
   (reg t = Some st \<longrightarrow>
      canNodeContainContent reg t = Inr (canContainContent st) \<and>
      isNodeContent reg t = Inr (isContent st) \<and>
      canNodeHaveChildren reg t =
        Inr (childNodeTypes st = None \<or> (\<exists>ts. childNodeTypes st = Some ts \<and> ts \<noteq> [])) \<and>
      getChildNodeTypes reg t = Inr (childNodeTypes st) \<and>
      getParentNodeTypes reg t = Inr (parentNodeTypes st) \<and>
      getSuggestedParentNodeTypes reg t = Inr (suggestedParentNodeTypes st) \<and>
      (\<exists>b. canNodeHaveChildrenNotContent reg t = Inr b) \<and>
      isNodeWrapped reg t = Inr (isWrapped st) \<and>
      isNodeUnwrappable reg t = Inr (isWrapped st \<and> isUnwrappable st) \<and>
      isNodeFocusable reg t = Inr (isFocusable st) \<and>
      doesNodeHaveSignificantWhitespace reg t = Inr (hasSignificantWhitespace st) \<and>
      doesNodeHandleOwnChildren reg t = Inr (handlesOwnChildren st) \<and>
      shouldIgnoreChildren reg t = Inr (ignoreChildren st) \<and>
      isNodeInternal reg t = Inr (isInternal st) \<and>
      isNodeDeletable reg t = Inr (isDeletable st) \<and>
      (\<exists>e. (getDataElement reg t attrs :: error + 'r element) = Inr e) \<and>
      (canNodeTakeAnnotationType annotationClass instanceOf reg t ann = Inr True \<or>
       canNodeTakeAnnotationType annotationClass instanceOf reg t ann = Inr False \<or>
       canNodeTakeAnnotationType annotationClass instanceOf reg t ann = Inl TypeError) \<and>
      ((\<forall>b \<in> set (blacklistedAnnotationTypes st). annotationClass b \<noteq> None) \<longrightarrow>
         canNodeTakeAnnotationType annotationClass instanceOf reg t ann =
           Inr (\<forall>b \<in> set (blacklistedAnnotationTypes st).
                  \<forall>c. annotationClass b = Some c \<longrightarrow> \<not> instanceOf ann c)))"
proof -
  have unknown: "canNodeTakeAnnotationType annotationClass instanceOf reg t ann = Inl (UnknownNodeType t)"
    if "reg t = None"
    using that by (simp add: canNodeTakeAnnotationType_def)
  have known: "canNodeTakeAnnotationType annotationClass instanceOf reg t ann =
      blacklist_loop annotationClass instanceOf (blacklistedAnnotationTypes st) ann"
    if "reg t = Some st"
    using that by (simp add: canNodeTakeAnnotationType_def)
  have others: "(reg t = None \<longrightarrow>
      canNodeContainContent reg t = Inl (UnknownNodeType t) \<and>
      isNodeContent reg t = Inl (UnknownNodeType t) \<and>
      canNodeHaveChildren reg t = Inl (UnknownNodeType t) \<and>
      getChildNodeTypes reg t = Inl (UnknownNodeType t) \<and>
      getParentNodeTypes reg t = Inl (UnknownNodeType t) \<and>
      getSuggestedParentNodeTypes reg t = Inl (UnknownNodeType t) \<and>
      canNodeHaveChildrenNotContent reg t = Inl (UnknownNodeType t) \<and>
      isNodeWrapped reg t = Inl (UnknownNodeType t) \<and>
      isNodeUnwrappable reg t = Inl (UnknownNodeType t) \<and>
      isNodeFocusable reg t = Inl (UnknownNodeType t) \<and>
      doesNodeHaveSignificantWhitespace reg t = Inl (UnknownNodeType t) \<and>
      doesNodeHandleOwnChildren reg t = Inl (UnknownNodeType t) \<and>
      shouldIgnoreChildren reg t = Inl (UnknownNodeType t) \<and>
      isNodeInternal reg t = Inl (UnknownNodeType t) \<and>
      isNodeDeletable reg t = Inl (UnknownNodeType t) \<and>
      (getDataElement reg t attrs :: error + 'r element) = Inl (UnknownNodeType t)) \<and>
   (reg t = Some st \<longrightarrow>
      canNodeContainContent reg t = Inr (canContainContent st) \<and>
      isNodeContent reg t = Inr (isContent st) \<and>
      canNodeHaveChildren reg t =
        Inr (childNodeTypes st = None \<or> (\<exists>ts. childNodeTypes st = Some ts \<and> ts \<noteq> [])) \<and>
      getChildNodeTypes reg t = Inr (childNodeTypes st) \<and>
      getParentNodeTypes reg t = Inr (parentNodeTypes st) \<and>
      getSuggestedParentNodeTypes reg t = Inr (suggestedParentNodeTypes st) \<and>
      (\<exists>b. canNodeHaveChildrenNotContent reg t = Inr b) \<and>
      isNodeWrapped reg t = Inr (isWrapped st) \<and>
      isNodeUnwrappable reg t = Inr (isWrapped st \<and> isUnwrappable st) \<and>
      isNodeFocusable reg t = Inr (isFocusable st) \<and>
      doesNodeHaveSignificantWhitespace reg t = Inr (hasSignificantWhitespace st) \<and>
      doesNodeHandleOwnChildren reg t = Inr (handlesOwnChildren st) \<and>
      shouldIgnoreChildren reg t = Inr (ignoreChildren st) \<and>
      isNodeInternal reg t = Inr (isInternal st) \<and>
      isNodeDeletable reg t = Inr (isDeletable st) \<and>
      (\<exists>e. (getDataElement reg t attrs :: error + 'r element) = Inr e))"
    by (auto simp: canNodeContainContent_def isNodeContent_def canNodeHaveChildren_def
      getChildNodeTypes_def getParentNodeTypes_def getSuggestedParentNodeTypes_def
      canNodeHaveChildrenNotContent_def isNodeWrapped_def isNodeUnwrappable_def
      isNodeFocusable_def doesNodeHaveSignificantWhitespace_def
      doesNodeHandleOwnChildren_def shouldIgnoreChildren_def isNodeInternal_def
      isNodeDeletable_def getDataElement_def Let_def split: option.splits)
  show ?thesis
    using others unknown known
      blacklist_loop_result[of annotationClass instanceOf "blacklistedAnnotationTypes st" ann]
      blacklist_loop_known[of "blacklistedAnnotationTypes st" annotationClass instanceOf ann]
    by simp
qed

theorem nodeFactory_unknown_type_raises_witness:
  "exampleRegistry ''table'' = None \<and>
   isNodeContent exampleRegistry ''table'' = Inl (UnknownNodeType ''table'') \<and>
   getChildNodeTypes exampleRegistry ''table'' = Inl (UnknownNodeType ''table'') \<and>
   canNodeTakeAnnotationType boldClasses (\<lambda>a c. a = c) exampleRegistry ''table'' ''BoldAnnotation''
     = Inl (UnknownNodeType ''table'') \<and>
   blacklistRegistry ''preformatted'' =
     Some (branchStatic\<lparr> canContainContent := True,
                          blacklistedAnnotationTypes := [''textStyle/bold''] \<rparr>) \<and>
   isNodeContent blacklistRegistry ''preformatted'' = Inr False \<and>
   getChildNodeTypes blacklistRegistry ''preformatted'' = Inr None \<and>
   boldClasses ''textStyle/bold'' = Some ''BoldAnnotation'' \<and>
   canNodeTakeAnnotationType boldClasses (\<lambda>a c. a = c) blacklistRegistry ''preformatted''
     ''BoldAnnotation'' = Inr False \<and>
   canNodeTakeAnnotationType boldClasses (\<lambda>a c. a = c) blacklistRegistry ''preformatted''
     ''LinkAnnotation'' = Inr True"
proof -
  have unknown: "exampleRegistry ''table'' = None"
    by (simp add: exampleRegistry_def)
  have known: "blacklistRegistry ''preformatted'' =
     Some (branchStatic\<lparr> canContainContent := True,
                          blacklistedAnnotationTypes := [''textStyle/bold''] \<rparr>)"
    by (simp add: blacklistRegistry_def)
  have classes: "boldClasses ''textStyle/bold'' = Some ''BoldAnnotation''"
    by (simp add: boldClasses_def)
  show ?thesis
    using nodeFactory_unknown_type_raises
            [of exampleRegistry "''table''" boldClasses "\<lambda>a c. a = c" "''BoldAnnotation''"
                undefined undefined]
          nodeFactory_unknown_type_raises
            [of blacklistRegistry "''preformatted''" boldClasses "\<lambda>a c. a = c" "''BoldAnnotation''"
                undefined
                "branchStatic\<lparr> canContainContent := True,
                                 blacklistedAnnotationTypes := [''textStyle/bold''] \<rparr>"]
          nodeFactory_unknown_type_raises
            [of blacklistRegistry "''preformatted''" boldClasses "\<lambda>a c. a = c" "''LinkAnnotation''"
                undefined
                "branchStatic\<lparr> canContainContent := True,
                                 blacklistedAnnotationTypes := [''textStyle/bold''] \<rparr>"]
          unknown known classes
    by (auto simp: branchStatic_def boldClasses_def)
qed

text \<open>
  The claim as stated fails for \<open>canNodeTakeAnnotationType\<close>: on a registered type whose
  blacklist names an annotation type that the annotation factory does not know, the
  lookup gives \<open>undefined\<close> and \<open>instanceof\<close> throws.
\<close>

theorem canNodeTakeAnnotationType_raises_counterexample:
  "blacklistRegistry ''preformatted'' \<noteq> None \<and>
   canNodeTakeAnnotationType (\<lambda>name. None) (\<lambda>a c. a = c) blacklistRegistry ''preformatted''
     ''BoldAnnotation'' = (Inl TypeError :: error + bool)"
  by (simp add: blacklistRegistry_def canNodeTakeAnnotationType_def)

subsection \<open>Offset classification\<close>

lemma registered_getData:
  "registeredData reg d \<Longrightarrow> 0 \<le> j \<Longrightarrow> j < getLength d \<Longrightarrow> registeredItem reg (getData d j)"
  by (auto simp: registeredData_def getData_def getLength_def list_all_length)

lemma exampleData_registered: "registeredData exampleRegistry exampleData"
  by (simp add: registeredData_def exampleRegistry_def exampleData_def isCloseName_def el_def
      newElement_def baseType_def slice1_def)

text \<open>
  C1, as the code has it. \<open>isContentOffset\<close> returns false at offset 0 and at the length of
  the data. At an offset strictly between them, with \<open>left\<close> and \<open>right\<close> the items next to
  it: when it returns, it returns true exactly when both items exist (as they do in data
  without holes) and one of them is a plain or an annotated character, or the left item is
  the closing marker of a type for which \<open>isNodeContent\<close> holds, or the right item is the
  opening element of such a type, or the left item is an element of a type for which
  \<open>canNodeContainContent\<close> holds and the right item is the closing marker of that type. It
  raises the unknown-type error exactly when both items are elements and a registry query
  that it comes to is for a type that the registry does not know: the type that the left
  item closes; or, unless that is a content type, the type that the right item opens; or,
  unless that is a content type, the type of the left item where the right item is its
  closing marker. So it returns whenever the two items are registered.
\<close>

theorem isContentOffset_classification:
  "isContentOffset reg d 0 = Inr False \<and>
   isContentOffset reg d (getLength d) = Inr False \<and>
   (0 < offset \<and> offset < getLength d \<longrightarrow>
      (let left = getData d (offset - 1); right = getData d offset;
           closesContent = (\<exists>t. isClosingOf left t \<and> isNodeContent reg t = Inr True);
           opensContent = (\<exists>t. isOpeningOf right t \<and> isNodeContent reg t = Inr True);
           emptyBranch = (\<exists>t. item_type left = Some t \<and> isClosingOf right t \<and>
                             canNodeContainContent reg t = Inr True);
           content = (left \<noteq> Undefined \<and> right \<noteq> Undefined \<and>
                      (isText left \<or> isText right \<or> closesContent \<or> opensContent \<or> emptyBranch));
           unknown = (item_type left \<noteq> None \<and> item_type right \<noteq> None \<and>
                      ((\<exists>t. isClosingOf left t \<and> reg t = None) \<or>
                       \<not> closesContent \<and>
                       ((\<exists>t. isOpeningOf right t \<and> reg t = None) \<or>
                        \<not> opensContent \<and>
                        (\<exists>t. item_type left = Some t \<and> isClosingOf right t \<and> reg t = None))))
       in (unknown \<longrightarrow>
             (\<exists>t. reg t = None \<and> isContentOffset reg d offset = Inl (UnknownNodeType t))) \<and>
          (\<not> unknown \<longrightarrow> isContentOffset reg d offset = Inr content) \<and>
          (registeredItem reg left \<and> registeredItem reg right \<longrightarrow> \<not> unknown)))"
proof -
  have first: "isContentOffset reg d 0 = Inr False"
    by (simp add: isContentOffset_def)
  have last: "isContentOffset reg d (getLength d) = Inr False"
    by (simp add: isContentOffset_def)
  define left where "left = getData d (offset - 1)"
  define right where "right = getData d offset"
  define closesContent where "closesContent = (\<exists>t. isClosingOf left t \<and> isNodeContent reg t = Inr True)"
  define opensContent where "opensContent = (\<exists>t. isOpeningOf right t \<and> isNodeContent reg t = Inr True)"
  define emptyBranch where "emptyBranch = (\<exists>t. item_type left = Some t \<and> isClosingOf right t \<and>
                             canNodeContainContent reg t = Inr True)"
  define content where "content = (left \<noteq> Undefined \<and> right \<noteq> Undefined \<and>
                      (isText left \<or> isText right \<or> closesContent \<or> opensContent \<or> emptyBranch))"
  define unknown where "unknown = (item_type left \<noteq> None \<and> item_type right \<noteq> None \<and>
                      ((\<exists>t. isClosingOf left t \<and> reg t = None) \<or>
                       \<not> closesContent \<and>
                       ((\<exists>t. isOpeningOf right t \<and> reg t = None) \<or>
                        \<not> opensContent \<and>
                        (\<exists>t. item_type left = Some t \<and> isClosingOf right t \<and> reg t = None))))"
  have throws: "\<exists>t. reg t = None \<and> isContentOffset reg d offset = Inl (UnknownNodeType t)"
    if "0 < offset" "offset < getLength d" unknown
    using that
    unfolding unknown_def content_def closesContent_def opensContent_def emptyBranch_def
      left_def right_def
    by (cases "getData d (offset - 1)"; cases "getData d offset")
       (auto simp: isContentOffset_def Let_def andE_def orE_def isText_def isClosingOf_def
            isOpeningOf_def isNodeContent_def canNodeContainContent_def
            js_string_def slice1_def isCloseName_def
          split: option.splits list.splits sum.splits if_splits)
  have returns: "isContentOffset reg d offset = Inr content"
    if "0 < offset" "offset < getLength d" "\<not> unknown"
    using that
    unfolding unknown_def content_def closesContent_def opensContent_def emptyBranch_def
      left_def right_def
    by (cases "getData d (offset - 1)"; cases "getData d offset")
       (auto simp: isContentOffset_def Let_def andE_def orE_def isText_def isClosingOf_def
            isOpeningOf_def isNodeContent_def canNodeContainContent_def
            js_string_def slice1_def isCloseName_def
          split: option.splits list.splits sum.splits if_splits)
  have registered: "\<not> unknown"
    if "registeredItem reg left" "registeredItem reg right"
    using that
    unfolding unknown_def closesContent_def opensContent_def left_def right_def
    by (cases "getData d (offset - 1)"; cases "getData d offset")
       (auto simp: isClosingOf_def isOpeningOf_def baseType_def slice1_def isCloseName_def
          split: if_splits list.splits)
  show ?thesis
    using first last throws returns registered
    unfolding Let_def left_def[symmetric] right_def[symmetric] closesContent_def[symmetric]
      opensContent_def[symmetric] emptyBranch_def[symmetric] content_def[symmetric]
      unknown_def[symmetric]
    by blast
qed

theorem isContentOffset_classification_witness:
  "(0::int) < 7 \<and> 7 < getLength exampleData \<and>
   registeredItem exampleRegistry (getData exampleData 6) \<and>
   registeredItem exampleRegistry (getData exampleData 7) \<and>
   isContentOffset exampleRegistry exampleData 7 = Inr True \<and>
   isContentOffset exampleRegistry exampleData 0 = Inr False \<and>
   (0::int) < 1 \<and> 1 < getLength tableDocument \<and>
   isOpeningOf (getData tableDocument 1) ''table'' \<and> exampleRegistry ''table'' = None \<and>
   (\<exists>t. exampleRegistry t = None \<and>
        isContentOffset exampleRegistry tableDocument 1 = Inl (UnknownNodeType t))"
proof -
  have len: "(0::int) < 7" "7 < getLength exampleData" "(0::int) < 1" "1 < getLength tableDocument"
    by (simp_all add: getLength_def exampleData_def tableDocument_def)
  have items: "registeredItem exampleRegistry (getData exampleData (7 - 1))"
    "registeredItem exampleRegistry (getData exampleData 7)"
    by (simp_all add: exampleData_def getData_def el_def newElement_def baseType_def isCloseName_def
        slice1_def exampleRegistry_def)
  define cont where "cont =
     (getData exampleData (7 - 1) \<noteq> Undefined \<and> getData exampleData 7 \<noteq> Undefined \<and>
      (isText (getData exampleData (7 - 1)) \<or> isText (getData exampleData 7) \<or>
       (\<exists>t. isClosingOf (getData exampleData (7 - 1)) t \<and> isNodeContent exampleRegistry t = Inr True) \<or>
       (\<exists>t. isOpeningOf (getData exampleData 7) t \<and> isNodeContent exampleRegistry t = Inr True) \<or>
       (\<exists>t. item_type (getData exampleData (7 - 1)) = Some t \<and> isClosingOf (getData exampleData 7) t \<and>
            canNodeContainContent exampleRegistry t = Inr True)))"
  have cont: cont
    unfolding cont_def
    by (simp add: exampleData_def getData_def el_def newElement_def isText_def isClosingOf_def
        isOpeningOf_def isNodeContent_def canNodeContainContent_def exampleRegistry_def
        branchStatic_def isCloseName_def)
  have "isContentOffset exampleRegistry exampleData 7 = Inr cont"
    using isContentOffset_classification [of exampleRegistry exampleData 7] len(1,2) items
    unfolding Let_def cont_def by blast
  then have i7: "isContentOffset exampleRegistry exampleData 7 = Inr True"
    using cont by simp
  have i0: "isContentOffset exampleRegistry exampleData 0 = Inr False"
    using isContentOffset_classification [of exampleRegistry exampleData 7] by blast
  have opens: "isOpeningOf (getData tableDocument 1) ''table''" "exampleRegistry ''table'' = None"
    by (simp_all add: tableDocument_def getData_def el_def newElement_def isOpeningOf_def
        isCloseName_def exampleRegistry_def)
  have elements: "item_type (getData tableDocument (1 - 1)) \<noteq> None"
    "item_type (getData tableDocument 1) \<noteq> None"
    by (simp_all add: tableDocument_def getData_def el_def)
  have open_left: "\<not> (\<exists>t. isClosingOf (getData tableDocument (1 - 1)) t \<and> exampleRegistry t = None)"
    "\<not> (\<exists>t. isClosingOf (getData tableDocument (1 - 1)) t \<and>
             isNodeContent exampleRegistry t = Inr True)"
    by (simp_all add: tableDocument_def getData_def el_def newElement_def isClosingOf_def)
  have i1: "\<exists>t. exampleRegistry t = None \<and>
      isContentOffset exampleRegistry tableDocument 1 = Inl (UnknownNodeType t)"
    using isContentOffset_classification [of exampleRegistry tableDocument 1] len(3,4)
      elements open_left opens
    unfolding Let_def by blast
  have six: "registeredItem exampleRegistry (getData exampleData 6)"
    using items(1) by simp
  show ?thesis using len six items(2) i7 i0 opens i1 by simp
qed

text \<open>
  The claim as stated fails next to an element of an unregistered type: at offset 3 of the
  document below the item to the right is the opening element of a type for which
  \<open>isNodeContent\<close> holds, so the claim asks for true, but the item to the left closes a
  table, which the registry does not know, and the query for it throws.
\<close>

theorem isContentOffset_unregistered_counterexample:
  "(0::int) < 3 \<and> 3 < getLength tableDocument \<and>
   isOpeningOf (getData tableDocument 3) ''inlineImage'' \<and>
   isNodeContent exampleRegistry ''inlineImage'' = Inr True \<and>
   isContentOffset exampleRegistry tableDocument 3 = Inl (UnknownNodeType ''table'')"
  by (simp add: tableDocument_def isOpeningOf_def offset_eval)

text \<open>
  C4. \<open>isStructuralOffset\<close> returns true at offset 0 and at the length of the data, with
  \<open>unrestricted\<close> set or not; and at every offset where it returns true with \<open>unrestricted\<close>
  set it returns true without it.
\<close>

theorem isStructuralOffset_edges_and_unrestricted:
  "isStructuralOffset reg d 0 u = Inr True \<and>
   isStructuralOffset reg d (getLength d) u = Inr True \<and>
   (isStructuralOffset reg d offset True = Inr True \<longrightarrow>
      isStructuralOffset reg d offset False = Inr True)"
  by (auto simp: isStructuralOffset_def Let_def andE_def orE_def notE_def bindE_def
      split: sum.splits if_splits)

theorem isStructuralOffset_edges_and_unrestricted_witness:
  "isStructuralOffset exampleRegistry exampleData 6 True = Inr True \<and>
   isStructuralOffset exampleRegistry exampleData 6 False = Inr True"
proof -
  have unrestricted: "isStructuralOffset exampleRegistry exampleData 6 True = Inr True"
    by (simp add: isStructuralOffset_def exampleData_def getLength_def getData_def el_def
        newElement_def andE_def orE_def notE_def bindE_def js_string_def isCloseName_def
        slice1_def canNodeHaveChildren_def isNodeContent_def getParentNodeTypes_def
        exampleRegistry_def branchStatic_def)
  show ?thesis
    using isStructuralOffset_edges_and_unrestricted [of exampleRegistry exampleData True 6]
          unrestricted
    by simp
qed

lemma andE_simps:
  "andE (Inr False) x = Inr False" "andE (Inr True) x = x"
  by (simp_all add: andE_def)

lemma orE_simps:
  "orE (Inr True) x = Inr True" "orE (Inr False) x = x"
  by (simp_all add: orE_def)

lemma registered_type:
  "registeredItem reg (Elem e) \<Longrightarrow> isCloseName (type e) \<Longrightarrow> \<exists>st. reg (slice1 (type e)) = Some st"
  "registeredItem reg (Elem e) \<Longrightarrow> \<not> isCloseName (type e) \<Longrightarrow> \<exists>st. reg (type e) = Some st"
  by (auto simp: baseType_def)

lemma closing_of:
  "CHR ''/'' # t = t' \<Longrightarrow> isCloseName t' \<and> slice1 t' = t"
  by (cases t') (auto simp: isCloseName_def slice1_def)

lemma isContentOffset_inner:
  assumes l: "registeredItem reg left" and r: "registeredItem reg right"
  shows "\<exists>b. orE (Inr (isString left \<or> isString right))
            (orE (Inr (isArray left \<or> isArray right))
            (orE
              (andE (Inr (item_type left \<noteq> None))
              (andE (Inr (isCloseName (js_string (item_type left))))
                    (isNodeContent reg (slice1 (js_string (item_type left))))))
            (orE
              (andE (Inr (item_type right \<noteq> None))
              (andE (Inr (\<not> isCloseName (js_string (item_type right))))
                    (isNodeContent reg (js_string (item_type right)))))
              (andE (Inr (Some (CHR ''/'' # js_string (item_type left)) = item_type right))
                    (canNodeContainContent reg (js_string (item_type left))))))) = Inr b"
proof (cases "isString left \<or> isString right")
  case True
  then have "orE (Inr (isString left \<or> isString right))
            (orE (Inr (isArray left \<or> isArray right))
            (orE
              (andE (Inr (item_type left \<noteq> None))
              (andE (Inr (isCloseName (js_string (item_type left))))
                    (isNodeContent reg (slice1 (js_string (item_type left))))))
            (orE
              (andE (Inr (item_type right \<noteq> None))
              (andE (Inr (\<not> isCloseName (js_string (item_type right))))
                    (isNodeContent reg (js_string (item_type right)))))
              (andE (Inr (Some (CHR ''/'' # js_string (item_type left)) = item_type right))
                    (canNodeContainContent reg (js_string (item_type left))))))) = Inr True"
    by (simp add: orE_simps)
  then show ?thesis by blast
next
  case ns: False
  show ?thesis
  proof (cases "isArray left \<or> isArray right")
    case True
    then have "orE (Inr (isString left \<or> isString right))
            (orE (Inr (isArray left \<or> isArray right))
            (orE
              (andE (Inr (item_type left \<noteq> None))
              (andE (Inr (isCloseName (js_string (item_type left))))
                    (isNodeContent reg (slice1 (js_string (item_type left))))))
            (orE
              (andE (Inr (item_type right \<noteq> None))
              (andE (Inr (\<not> isCloseName (js_string (item_type right))))
                    (isNodeContent reg (js_string (item_type right)))))
              (andE (Inr (Some (CHR ''/'' # js_string (item_type left)) = item_type right))
                    (canNodeContainContent reg (js_string (item_type left))))))) = Inr True"
      using ns by (simp add: orE_simps)
    then show ?thesis by blast
  next
    case na: False
    obtain eleft eright where lr: "left = Elem eleft" "right = Elem eright"
      using l r ns na by (cases left; cases right) auto
    obtain a where a: "andE (Inr (isCloseName (type eleft))) (isNodeContent reg (slice1 (type eleft))) = Inr a"
      using registered_type(1)[OF l[unfolded lr]]
      by (cases "isCloseName (type eleft)") (auto simp: andE_simps isNodeContent_def)
    obtain b where b: "andE (Inr (\<not> isCloseName (type eright))) (isNodeContent reg (type eright)) = Inr b"
      using registered_type(2)[OF r[unfolded lr]]
      by (cases "isCloseName (type eright)") (auto simp: andE_simps isNodeContent_def)
    obtain c where c: "andE (Inr (CHR ''/'' # type eleft = type eright)) (canNodeContainContent reg (type eleft)) = Inr c"
    proof (cases "CHR ''/'' # type eleft = type eright")
      case True
      from closing_of[OF True] registered_type(1)[OF r[unfolded lr]]
      obtain st where "reg (type eleft) = Some st" by auto
      then show ?thesis using that True by (simp add: andE_simps canNodeContainContent_def)
    next
      case False
      then show ?thesis using that by (simp add: andE_simps)
    qed
    show ?thesis
      unfolding lr using a b c
      by (cases a; cases b) (auto simp: orE_simps andE_simps js_string_def)
  qed
qed

lemma isContentOffset_total:
  assumes "registeredData reg d"
  shows "\<exists>b. isContentOffset reg d j = Inr b \<and> (b \<longrightarrow> 0 < j \<and> j < getLength d)"
proof (cases "0 < j \<and> j < getLength d")
  case True
  have l: "registeredItem reg (getData d (j - 1))"
    using registered_getData[OF assms, of "j - 1"] True by simp
  have r: "registeredItem reg (getData d j)"
    using registered_getData[OF assms, of j] True by simp
  have def: "getData d (j - 1) \<noteq> Undefined \<and> getData d j \<noteq> Undefined" using l r by auto
  have "isContentOffset reg d j = orE (Inr (isString (getData d (j - 1)) \<or> isString (getData d j)))
            (orE (Inr (isArray (getData d (j - 1)) \<or> isArray (getData d j)))
            (orE
              (andE (Inr (item_type (getData d (j - 1)) \<noteq> None))
              (andE (Inr (isCloseName (js_string (item_type (getData d (j - 1))))))
                    (isNodeContent reg (slice1 (js_string (item_type (getData d (j - 1))))))))
            (orE
              (andE (Inr (item_type (getData d j) \<noteq> None))
              (andE (Inr (\<not> isCloseName (js_string (item_type (getData d j)))))
                    (isNodeContent reg (js_string (item_type (getData d j))))))
              (andE (Inr (Some (CHR ''/'' # js_string (item_type (getData d (j - 1)))) = item_type (getData d j)))
                    (canNodeContainContent reg (js_string (item_type (getData d (j - 1)))))))))"
    using True def by (simp add: isContentOffset_def Let_def andE_simps)
  then show ?thesis
    using isContentOffset_inner[OF l r] True by auto
next
  case False
  then have "j = 0 \<or> j = getLength d \<or> getData d (j - 1) = Undefined \<or> getData d j = Undefined"
    by (auto simp: getData_def getLength_def)
  then have "isContentOffset reg d j = Inr False"
    by (auto simp: isContentOffset_def Let_def andE_simps)
  then show ?thesis by blast
qed

lemma structural_rule_total:
  assumes "reg t = Some st"
  shows "\<exists>b. andE (orE (canNodeHaveChildren reg t) (notE (isNodeContent reg t)))
                   (orE (Inr (\<not> u)) (bindE (getParentNodeTypes reg t) (\<lambda>ts. Inr (ts = None)))) = Inr b"
    and "\<exists>b. andE (canNodeHaveChildrenNotContent reg t)
                   (orE (Inr (\<not> u)) (bindE (getChildNodeTypes reg t) (\<lambda>ts. Inr (ts = None)))) = Inr b"
  using assms
  by (auto simp: andE_def orE_def notE_def bindE_def canNodeHaveChildren_def isNodeContent_def
      getParentNodeTypes_def canNodeHaveChildrenNotContent_def getChildNodeTypes_def)

lemma isStructuralOffset_inner:
  assumes l: "registeredItem reg (Elem eleft)" and r: "registeredItem reg (Elem eright)"
  shows "\<exists>b. orE
              (andE (Inr (isCloseName (type eleft)))
              (andE (orE (canNodeHaveChildren reg (slice1 (type eleft)))
                         (notE (isNodeContent reg (slice1 (type eleft)))))
                    (orE (Inr (\<not> u))
                         (bindE (getParentNodeTypes reg (slice1 (type eleft))) (\<lambda>ts. Inr (ts = None))))))
            (orE
              (andE (Inr (\<not> isCloseName (type eright)))
              (andE (orE (canNodeHaveChildren reg (type eright))
                         (notE (isNodeContent reg (type eright))))
                    (orE (Inr (\<not> u))
                         (bindE (getParentNodeTypes reg (type eright)) (\<lambda>ts. Inr (ts = None))))))
              (andE (Inr (CHR ''/'' # type eleft = type eright))
              (andE (canNodeHaveChildrenNotContent reg (type eleft))
                    (orE (Inr (\<not> u))
                         (bindE (getChildNodeTypes reg (type eleft)) (\<lambda>ts. Inr (ts = None))))))) = Inr b"
proof -
  obtain a where a: "andE (Inr (isCloseName (type eleft)))
              (andE (orE (canNodeHaveChildren reg (slice1 (type eleft)))
                         (notE (isNodeContent reg (slice1 (type eleft)))))
                    (orE (Inr (\<not> u))
                         (bindE (getParentNodeTypes reg (slice1 (type eleft))) (\<lambda>ts. Inr (ts = None))))) = Inr a"
  proof (cases "isCloseName (type eleft)")
    case True
    from registered_type(1)[OF l True] obtain st where "reg (slice1 (type eleft)) = Some st" by blast
    from structural_rule_total(1)[where reg = reg and t = "slice1 (type eleft)" and u = u, OF this]
    show ?thesis using that True by (auto simp: andE_simps)
  next
    case False
    then show ?thesis using that by (auto simp: andE_simps)
  qed
  obtain b where b: "andE (Inr (\<not> isCloseName (type eright)))
              (andE (orE (canNodeHaveChildren reg (type eright))
                         (notE (isNodeContent reg (type eright))))
                    (orE (Inr (\<not> u))
                         (bindE (getParentNodeTypes reg (type eright)) (\<lambda>ts. Inr (ts = None))))) = Inr b"
  proof (cases "isCloseName (type eright)")
    case False
    from registered_type(2)[OF r False] obtain st where "reg (type eright) = Some st" by blast
    from structural_rule_total(1)[where reg = reg and t = "type eright" and u = u, OF this]
    show ?thesis using that False by (auto simp: andE_simps)
  next
    case True
    then show ?thesis using that by (auto simp: andE_simps)
  qed
  obtain c where c: "andE (Inr (CHR ''/'' # type eleft = type eright))
              (andE (canNodeHaveChildrenNotContent reg (type eleft))
                    (orE (Inr (\<not> u))
                         (bindE (getChildNodeTypes reg (type eleft)) (\<lambda>ts. Inr (ts = None))))) = Inr c"
  proof (cases "CHR ''/'' # type eleft = type eright")
    case True
    from closing_of[OF True] registered_type(1)[OF r]
    obtain st where "reg (type eleft) = Some st" by auto
    from structural_rule_total(2)[where reg = reg and t = "type eleft" and u = u, OF this]
    show ?thesis using that True by (auto simp: andE_simps)
  next
    case False
    then show ?thesis using that by (auto simp: andE_simps)
  qed
  show ?thesis unfolding a b c by (cases a; cases b) (auto simp: orE_simps)
qed

lemma isStructuralOffset_total:
  assumes "registeredData reg d"
  shows "\<exists>b. isStructuralOffset reg d j u = Inr b \<and> (b \<longrightarrow> 0 \<le> j \<and> j \<le> getLength d)"
proof (cases "j = 0 \<or> j = getLength d")
  case True
  then have "isStructuralOffset reg d j u = Inr True"
    by (simp add: isStructuralOffset_def)
  moreover have "0 \<le> j \<and> j \<le> getLength d" using True by (auto simp: getLength_def)
  ultimately show ?thesis by blast
next
  case edge: False
  define lt where "lt = js_string (item_type (getData d (j - 1)))"
  define rt where "rt = js_string (item_type (getData d j))"
  define rules where "rules = orE
              (andE (Inr (isCloseName lt))
              (andE (orE (canNodeHaveChildren reg (slice1 lt))
                         (notE (isNodeContent reg (slice1 lt))))
                    (orE (Inr (\<not> u))
                         (bindE (getParentNodeTypes reg (slice1 lt)) (\<lambda>ts. Inr (ts = None))))))
            (orE
              (andE (Inr (\<not> isCloseName rt))
              (andE (orE (canNodeHaveChildren reg rt)
                         (notE (isNodeContent reg rt)))
                    (orE (Inr (\<not> u))
                         (bindE (getParentNodeTypes reg rt) (\<lambda>ts. Inr (ts = None))))))
              (andE (Inr (CHR ''/'' # lt = rt))
              (andE (canNodeHaveChildrenNotContent reg lt)
                    (orE (Inr (\<not> u))
                         (bindE (getChildNodeTypes reg lt) (\<lambda>ts. Inr (ts = None)))))))"
  have unf: "isStructuralOffset reg d j u =
      andE (Inr (getData d (j - 1) \<noteq> Undefined \<and> getData d j \<noteq> Undefined \<and>
                 item_type (getData d (j - 1)) \<noteq> None \<and> item_type (getData d j) \<noteq> None)) rules"
    unfolding isStructuralOffset_def Let_def rules_def lt_def rt_def using edge by simp
  show ?thesis
  proof (cases "\<exists>eleft eright. getData d (j - 1) = Elem eleft \<and> getData d j = Elem eright")
    case True
    then obtain eleft eright where lr: "getData d (j - 1) = Elem eleft" "getData d j = Elem eright"
      by blast
    have inr: "0 < j \<and> j < getLength d"
      using lr edge by (auto simp: getData_def getLength_def split: if_splits)
    have l: "registeredItem reg (Elem eleft)"
      using registered_getData[OF assms, of "j - 1"] inr lr by simp
    have r: "registeredItem reg (Elem eright)"
      using registered_getData[OF assms, of j] inr lr by simp
    obtain b where b: "rules = Inr b"
      using isStructuralOffset_inner[OF l r, of u]
      unfolding rules_def lt_def rt_def lr by (auto simp: js_string_def)
    have "isStructuralOffset reg d j u = Inr b"
      unfolding unf b lr by (simp add: andE_simps)
    then show ?thesis using inr by (intro exI[of _ b]) simp
  next
    case False
    then have "(getData d (j - 1) \<noteq> Undefined \<and> getData d j \<noteq> Undefined \<and>
                 item_type (getData d (j - 1)) \<noteq> None \<and> item_type (getData d j) \<noteq> None) = False"
      by (cases "getData d (j - 1)"; cases "getData d j") auto
    then have "isStructuralOffset reg d j u = Inr False"
      unfolding unf by (simp only: andE_simps)
    then show ?thesis by blast
  qed
qed

subsection \<open>Annotations and attributes at an offset\<close>

text \<open>
  C7. Where the item at the offset is an annotated character, setting an empty list of
  annotation indexes (\<open>setAnnotationIndexesAtOffset\<close>, or \<open>setAnnotationsAtOffset\<close> with an
  empty set) puts the bare character in its place, not a pair with an empty list; where
  the item is an element, it removes the \<open>annotations\<close> field of the element. Nothing else
  in the data changes.
\<close>

theorem setAnnotationIndexesAtOffset_empty:
  "(getData d offset = AnnChr c ixs \<longrightarrow>
      setAnnotationIndexesAtOffset d offset [] = d[nat offset := Chr c] \<and>
      getData (setAnnotationIndexesAtOffset d offset []) offset = Chr c \<and>
      setAnnotationsAtOffset d st offset [] = Inr (d[nat offset := Chr c], st)) \<and>
   (getData d offset = Elem e \<longrightarrow>
      setAnnotationIndexesAtOffset d offset [] = d[nat offset := Elem (e\<lparr> annotations := None \<rparr>)] \<and>
      getData (setAnnotationIndexesAtOffset d offset []) offset = Elem (e\<lparr> annotations := None \<rparr>) \<and>
      setAnnotationsAtOffset d st offset [] =
        Inr (d[nat offset := Elem (e\<lparr> annotations := None \<rparr>)], st))"
  by (auto simp: setAnnotationsAtOffset_def bindE_def setAnnotationIndexesAtOffset_def
      getData_def isElementData_def Let_def setData_def getCharacterData_def mutateElement_def
      split: if_splits)

theorem setAnnotationIndexesAtOffset_empty_witness:
  "getData [AnnChr ''b'' [3::nat, 5], Elem ((newElement ''inlineImage'')\<lparr> annotations := Some [3::nat] \<rparr>)] 0
     = AnnChr ''b'' [3::nat, 5] \<and>
   setAnnotationIndexesAtOffset
     [AnnChr ''b'' [3::nat, 5], Elem ((newElement ''inlineImage'')\<lparr> annotations := Some [3::nat] \<rparr>)] 0 []
     = [Chr ''b'', Elem ((newElement ''inlineImage'')\<lparr> annotations := Some [3::nat] \<rparr>)] \<and>
   getData [AnnChr ''b'' [3::nat, 5], Elem ((newElement ''inlineImage'')\<lparr> annotations := Some [3::nat] \<rparr>)] 1
     = Elem ((newElement ''inlineImage'')\<lparr> annotations := Some [3::nat] \<rparr>) \<and>
   setAnnotationIndexesAtOffset
     [AnnChr ''b'' [3::nat, 5], Elem ((newElement ''inlineImage'')\<lparr> annotations := Some [3::nat] \<rparr>)] 1 []
     = [AnnChr ''b'' [3::nat, 5], Elem (newElement ''inlineImage'')]"
proof -
  let ?image = "(newElement ''inlineImage'')\<lparr> annotations := Some [3::nat] \<rparr>"
  let ?d = "[AnnChr ''b'' [3, 5], Elem ?image]"
  have char: "getData ?d 0 = AnnChr ''b'' [3, 5]"
    by (simp add: getData_def)
  have elem: "getData ?d 1 = Elem ?image"
    by (simp add: getData_def)
  have "setAnnotationIndexesAtOffset ?d 0 [] = ?d[nat 0 := Chr ''b'']"
    using setAnnotationIndexesAtOffset_empty [of ?d 0 "''b''" "[3, 5]" undefined undefined] char
    by blast
  moreover have "setAnnotationIndexesAtOffset ?d 1 [] = ?d[nat 1 := Elem (?image\<lparr> annotations := None \<rparr>)]"
    using setAnnotationIndexesAtOffset_empty [of ?d 1 undefined undefined undefined ?image] elem
    by blast
  ultimately show ?thesis
    using char elem by (simp add: newElement_def)
qed

text \<open>
  C9. Where the item at the offset is not an element (a plain character, an annotated
  character, or nothing at all), \<open>setAttributeAtOffset\<close> leaves the whole linear data as
  it is, for every key and value.
\<close>

theorem setAttributeAtOffset_not_element:
  "getData d offset = Undefined \<or> isText (getData d offset) \<Longrightarrow>
     setAttributeAtOffset d offset key val = d"
  by (cases "getData d offset") (auto simp: setAttributeAtOffset_def isElementData_def isText_def)

theorem setAttributeAtOffset_not_element_witness:
  "isText (getData exampleData 1) \<and>
   setAttributeAtOffset exampleData 1 ''level'' (Some (JNum 2)) = exampleData \<and>
   getData exampleData 12 = Undefined \<and>
   setAttributeAtOffset exampleData 12 ''level'' None = exampleData"
proof -
  have char: "isText (getData exampleData 1)"
    by (simp add: exampleData_def getData_def isText_def)
  have outside: "getData exampleData 12 = Undefined"
    by (simp add: exampleData_def getData_def)
  have "setAttributeAtOffset exampleData 1 ''level'' (Some (JNum 2)) = exampleData"
    using setAttributeAtOffset_not_element [of exampleData 1 "''level''" "Some (JNum 2)"] char
    by blast
  moreover have "setAttributeAtOffset exampleData 12 ''level'' None = exampleData"
    using setAttributeAtOffset_not_element [of exampleData 12 "''level''" None] outside
    by blast
  ultimately show ?thesis
    using char outside by blast
qed

subsection \<open>Content outside the internal list\<close>

lemma getType_registered:
  assumes "registeredData reg d" "0 \<le> j" "j < getLength d"
  shows "\<exists>t. getType d j = Inr t \<and> (isElementData d j \<longrightarrow> (\<exists>s. t = Some s \<and> reg s \<noteq> None))
            \<and> (\<not> isElementData d j \<longrightarrow> t = None)"
  using registered_getData[OF assms]
  by (cases "getData d j")
     (auto simp: getType_def isCloseElementData_def isElementData_def Let_def js_string_def baseType_def)

lemma internalCheck_ok:
  assumes "registeredData reg d" "0 \<le> j" "j < getLength d" "getType d j = Inr ty"
  shows "\<exists>b. andE (Inr (ty \<noteq> None \<and> ty \<noteq> Some [])) (isNodeInternal reg (js_string ty)) = Inr b"
  using getType_registered[OF assms(1-3)] assms(4)
  by (cases "isElementData d j") (auto simp: andE_def isNodeInternal_def js_string_def)

lemma count_unfold:
  assumes "i < l" "getType d i = Inr ty"
    "andE (Inr (ty \<noteq> None \<and> ty \<noteq> Some [])) (isNodeInternal reg (js_string ty)) = Inr b"
  shows "countNonInternalElements_loop reg d limit i l internalDepth count =
     (if b then
        (if isOpenElementData d i
         then countNonInternalElements_loop reg d limit (i + 1) l (internalDepth + 1) count
         else countNonInternalElements_loop reg d limit (i + 1) l (internalDepth - 1) count)
      else if internalDepth = 0 then
        (if limit \<noteq> None \<and> limit \<noteq> Some 0 \<and> count + 1 \<ge> the limit then Inr (count + 1)
         else countNonInternalElements_loop reg d limit (i + 1) l internalDepth (count + 1))
      else countNonInternalElements_loop reg d limit (i + 1) l internalDepth count)"
  apply (subst countNonInternalElements_loop.simps)
  apply (simp only: assms sum.case if_True if_False not_not simp_thms)
  done

lemma count_unlimited:
  "registeredData reg d \<Longrightarrow> 0 \<le> i \<Longrightarrow> l \<le> getLength d \<Longrightarrow> limit = None \<Longrightarrow>
   \<exists>n. countNonInternalElements_loop reg d limit i l depth count = Inr n \<and> count \<le> n"
proof (induction reg d limit i l depth count rule: countNonInternalElements_loop.induct)
  case (1 reg d limit i l internalDepth count)
  show ?case
  proof (cases "i < l")
    case False
    then show ?thesis by (subst countNonInternalElements_loop.simps) simp
  next
    case True
    then have range: "0 \<le> i" "i < getLength d" using "1.prems" by auto
    obtain ty where ty: "getType d i = Inr ty"
      using getType_registered[OF "1.prems"(1) range] by blast
    obtain b where b: "andE (Inr (ty \<noteq> None \<and> ty \<noteq> Some [])) (isNodeInternal reg (js_string ty)) = Inr b"
      using internalCheck_ok[OF "1.prems"(1) range ty] by blast
    have nl: "\<not> \<not> i < l" using True by simp
    have next0: "0 \<le> i + 1" using range by simp
    note IH = "1.IH"[OF nl ty b]
    note unf = count_unfold[OF True ty b, of limit internalDepth count]
    show ?thesis
    proof (cases b)
      case True
      show ?thesis
      proof (cases "isOpenElementData d i")
        case o: True
        from IH(1)[OF True o "1.prems"(1) next0 "1.prems"(3,4)]
        show ?thesis unfolding unf using True o by simp
      next
        case o: False
        from IH(2)[OF True o "1.prems"(1) next0 "1.prems"(3,4)]
        show ?thesis unfolding unf using True o by simp
      qed
    next
      case False
      show ?thesis
      proof (cases "internalDepth = 0")
        case z: True
        have nlim: "\<not> (limit \<noteq> None \<and> limit \<noteq> Some 0 \<and> the limit \<le> count + 1)"
          using "1.prems"(4) by simp
        from IH(3)[OF False z nlim "1.prems"(1) next0 "1.prems"(3,4)]
        show ?thesis unfolding unf using False z nlim by auto
      next
        case z: False
        from IH(4)[OF False z "1.prems"(1) next0 "1.prems"(3,4)]
        show ?thesis unfolding unf using False z by simp
      qed
    qed
  qed
qed

lemma count_limited:
  "registeredData reg d \<Longrightarrow> 0 \<le> i \<Longrightarrow> l \<le> getLength d \<Longrightarrow> limit = None \<Longrightarrow> count \<le> 2 \<Longrightarrow>
   countNonInternalElements_loop reg d limit i l depth count = Inr n \<Longrightarrow>
   countNonInternalElements_loop reg d (Some 3) i l depth count = Inr (min 3 n)"
proof (induction reg d limit i l depth count rule: countNonInternalElements_loop.induct)
  case (1 reg d limit i l internalDepth count)
  show ?case
  proof (cases "i < l")
    case False
    then show ?thesis using "1.prems"(5,6)
      by (subst countNonInternalElements_loop.simps, subst (asm) countNonInternalElements_loop.simps) auto
  next
    case True
    then have range: "0 \<le> i" "i < getLength d" using "1.prems" by auto
    obtain ty where ty: "getType d i = Inr ty"
      using getType_registered[OF "1.prems"(1) range] by blast
    obtain b where b: "andE (Inr (ty \<noteq> None \<and> ty \<noteq> Some [])) (isNodeInternal reg (js_string ty)) = Inr b"
      using internalCheck_ok[OF "1.prems"(1) range ty] by blast
    have nl: "\<not> \<not> i < l" using True by simp
    have next0: "0 \<le> i + 1" using range by simp
    note IH = "1.IH"[OF nl ty b]
    note unf = count_unfold[OF True ty b, of limit internalDepth count]
    note unf3 = count_unfold[OF True ty b, of "Some 3" internalDepth count]
    note run = "1.prems"(6)[unfolded unf]
    show ?thesis
    proof (cases b)
      case True
      show ?thesis
      proof (cases "isOpenElementData d i")
        case o: True
        have "countNonInternalElements_loop reg d limit (i + 1) l (internalDepth + 1) count = Inr n"
          using run True o by simp
        from IH(1)[OF True o "1.prems"(1) next0 "1.prems"(3,4,5) this]
        show ?thesis unfolding unf3 using True o by simp
      next
        case o: False
        have "countNonInternalElements_loop reg d limit (i + 1) l (internalDepth - 1) count = Inr n"
          using run True o by simp
        from IH(2)[OF True o "1.prems"(1) next0 "1.prems"(3,4,5) this]
        show ?thesis unfolding unf3 using True o by simp
      qed
    next
      case False
      show ?thesis
      proof (cases "internalDepth = 0")
        case z: True
        have nlim: "\<not> (limit \<noteq> None \<and> limit \<noteq> Some 0 \<and> the limit \<le> count + 1)"
          using "1.prems"(4) by simp
        have rest: "countNonInternalElements_loop reg d limit (i + 1) l internalDepth (count + 1) = Inr n"
          using run False z nlim by auto
        show ?thesis
        proof (cases "count = 2")
          case True
          from count_unlimited[OF "1.prems"(1) next0 "1.prems"(3,4), of internalDepth "count + 1"] rest
          have "3 \<le> n" using True by auto
          then show ?thesis unfolding unf3 using False z True by simp
        next
          case c: False
          then have c1: "count + 1 \<le> 2" using "1.prems"(5) by simp
          from IH(3)[OF False z nlim "1.prems"(1) next0 "1.prems"(3,4) c1 rest]
          show ?thesis unfolding unf3 using c "1.prems"(5) False z by simp
        qed
      next
        case z: False
        have "countNonInternalElements_loop reg d limit (i + 1) l internalDepth count = Inr n"
          using run False z by simp
        from IH(4)[OF False z "1.prems"(1) next0 "1.prems"(3,4,5) this]
        show ?thesis unfolding unf3 using False z by simp
      qed
    qed
  qed
qed

text \<open>
  C6, as the code has it. On registered data, let \<open>n\<close> be the number of items that
  \<open>countNonInternalElements\<close> counts without a limit (the items outside internal-list
  subtrees). \<open>hasContent\<close> returns true when \<open>n\<close> is more than 2; with at most 2 such items
  it returns false, except that it returns true when the first item is an element whose
  type can neither contain content nor is internal. The type need not be a branch type.
\<close>

theorem hasContent_characterisation:
  assumes "registeredData reg d"
  shows "\<exists>n. countNonInternalElements reg d None = Inr n \<and>
             hasContent reg d =
               Inr (n > 2 \<or>
                    (\<exists>e st. getData d 0 = Elem e \<and> reg (baseType (type e)) = Some st \<and>
                            \<not> canContainContent st \<and> \<not> isInternal st))"
proof -
  obtain n where n: "countNonInternalElements reg d None = Inr n" and "0 \<le> n"
    using count_unlimited[OF assms, of 0 "getLength d" None 0 0]
    by (auto simp: countNonInternalElements_def)
  have lim: "countNonInternalElements reg d (Some 3) = Inr (min 3 n)"
    using count_limited[OF assms, of 0 "getLength d" None 0 0 n] n
    by (simp add: countNonInternalElements_def)
  have first: "andE (Inr (isElementData d 0))
         (andE (notE (bindE (getType d 0) (\<lambda>t. canNodeContainContent reg (js_string t))))
               (notE (bindE (getType d 0) (\<lambda>t. isNodeInternal reg (js_string t))))) =
        Inr (\<exists>e st. getData d 0 = Elem e \<and> reg (baseType (type e)) = Some st \<and>
                            \<not> canContainContent st \<and> \<not> isInternal st)"
  proof (cases "isElementData d 0")
    case False
    then show ?thesis by (auto simp: andE_def isElementData_def)
  next
    case True
    then have "0 < getLength d" by (auto simp: isElementData_def getData_def getLength_def split: if_splits)
    from registered_getData[OF assms _ this] True show ?thesis
      by (cases "getData d 0")
         (auto simp: andE_def notE_def bindE_def isElementData_def getType_def isCloseElementData_def
            canNodeContainContent_def isNodeInternal_def baseType_def js_string_def Let_def)
  qed
  show ?thesis
    unfolding hasContent_def lim first using n by (auto simp: orE_def bindE_def)
qed

lemmas document_eval =
  countNonInternalElements_def countNonInternalElements_loop.simps hasContent_def
  getLength_def getType_def getData_def isCloseElementData_def isOpenElementData_def
  isElementData_def el_def newElement_def js_string_def isCloseName_def slice1_def andE_def
  orE_def notE_def bindE_def isNodeInternal_def canNodeContainContent_def
  canNodeHaveChildren_def exampleRegistry_def branchStatic_def baseType_def

theorem hasContent_characterisation_witness:
  "registeredData exampleRegistry emptyParagraphDocument \<and>
   countNonInternalElements exampleRegistry emptyParagraphDocument None = Inr 2 \<and>
   hasContent exampleRegistry emptyParagraphDocument = Inr False"
proof -
  have registered: "registeredData exampleRegistry emptyParagraphDocument"
    by (simp add: registeredData_def emptyParagraphDocument_def document_eval)
  have two: "countNonInternalElements exampleRegistry emptyParagraphDocument None = Inr 2"
    by (simp add: emptyParagraphDocument_def document_eval)
  have first: "getData emptyParagraphDocument 0 = el ''paragraph''"
    by (simp add: emptyParagraphDocument_def getData_def)
  have "hasContent exampleRegistry emptyParagraphDocument = Inr False"
    using hasContent_characterisation [OF registered] two first
    by (auto simp: el_def newElement_def baseType_def isCloseName_def exampleRegistry_def
        branchStatic_def)
  then show ?thesis using registered two by simp
qed

text \<open>
  The claim as stated fails on a leaf type: the document below holds two items, its first
  item is an element of a type that cannot have children (so is no branch type), and
  \<open>hasContent\<close> returns true.
\<close>

theorem hasContent_leaf_counterexample:
  "countNonInternalElements exampleRegistry alienBlockDocument None = Inr 2 \<and>
   canNodeHaveChildren exampleRegistry ''alienBlock'' = Inr False \<and>
   hasContent exampleRegistry alienBlockDocument = Inr True"
  by (simp add: alienBlockDocument_def document_eval)

subsection \<open>Relative offsets\<close>

lemma ignoreCheck_ok:
  assumes "registeredData reg d"
  shows "\<exists>b. (if isElementData d j
                 then bindE (getType d j) (\<lambda>t. shouldIgnoreChildren reg (js_string t))
                 else Inr False) = Inr b"
proof (cases "isElementData d j")
  case True
  then have "0 \<le> j" "j < getLength d" by (auto simp: isElementData_def getData_def getLength_def Let_def split: if_splits)
  from getType_registered[OF assms this] True show ?thesis
    by (auto simp: bindE_def shouldIgnoreChildren_def js_string_def)
qed auto

lemma edge_ok:
  assumes "registeredData reg d" "0 \<le> i" "i \<le> getLength d" "forward \<longrightarrow> 1 \<le> i"
  shows "\<exists>b. andE (Inr (\<not> turnedAround \<and> steps = 0))
                                 (orE (Inr (\<not> forward \<and> i = 0))
                                   (andE (Inr forward)
                                     (orE (Inr (i = getLength d))
                                          (bindE (getType d (i - 1))
                                             (\<lambda>t. Inr (t = Some ''internalList'')))))) = Inr b"
proof (cases "forward \<and> i \<noteq> getLength d")
  case True
  then have "0 \<le> i - 1" "i - 1 < getLength d" using assms by auto
  from getType_registered[OF assms(1) this] show ?thesis
    by (auto simp: andE_def orE_def bindE_def)
next
  case False
  then show ?thesis by (auto simp: andE_def orE_def bindE_def)
qed

lemma loop_unfold:
  assumes "0 \<le> i" "i \<le> getLength d"
    and "(if isElementData d (i + (if forward then - 1 else 0))
          then bindE (getType d (i + (if forward then - 1 else 0)))
                 (\<lambda>t. shouldIgnoreChildren reg (js_string t))
          else Inr False) = Inr ign"
    and "callback i = Inr v"
    and "andE (Inr (\<not> turnedAround \<and> steps = 0))
           (orE (Inr (\<not> forward \<and> i = 0))
             (andE (Inr forward)
               (orE (Inr (i = getLength d))
                    (bindE (getType d (i - 1)) (\<lambda>t. Inr (t = Some ''internalList'')))))) = Inr tn"
    and "callback start = Inr sv"
    and "entered = ((forward \<and> isOpenElementData d (i + (if forward then - 1 else 0))) \<or>
                    (\<not> forward \<and> \<not> isOpenElementData d (i + (if forward then - 1 else 0))))"
    and "depth' = (if ign then (if entered then depth + 1 else depth - 1) else depth)"
  shows "getRelativeOffset_loop reg d callback start i forward distance steps offset turnedAround depth =
     (if ign \<and> \<not> entered \<and> depth' < 0 then Inr (-1)
      else if v then
        (if depth' = 0 then
           (if distance = steps + 1 then Inr i
            else getRelativeOffset_loop reg d callback start (i + dirInt forward)
                   forward distance (steps + 1) i turnedAround depth')
         else getRelativeOffset_loop reg d callback start (i + dirInt forward)
                forward distance steps offset turnedAround depth')
      else if tn then
        (if sv then Inr start
         else getRelativeOffset_loop reg d callback start (start + dirInt (\<not> forward)) (\<not> forward) 1
                steps offset True 0)
      else getRelativeOffset_loop reg d callback start (i + dirInt forward)
             forward distance steps offset turnedAround depth')"
  apply (subst getRelativeOffset_loop.simps)
  apply (simp only: assms Let_def sum.case if_True if_False not_not simp_thms)
  done

lemma loop_ok:
  assumes reg: "registeredData reg d" and cb: "\<And>j. \<exists>b. callback j = Inr b"
    and st: "0 \<le> start" "start \<le> getLength d"
  shows "offset = -1 \<or> (0 \<le> offset \<and> offset \<le> getLength d \<and> callback offset = Inr True) \<Longrightarrow>
         (forward \<longrightarrow> 1 \<le> i) \<Longrightarrow>
         \<exists>r. getRelativeOffset_loop reg d callback start i forward distance steps offset turned depth = Inr r \<and>
             (r = -1 \<or> (0 \<le> r \<and> r \<le> getLength d \<and> callback r = Inr True))"
using reg cb st
proof (induction reg d callback start i forward distance steps offset turned depth
       rule: getRelativeOffset_loop.induct)
  case (1 reg d callback start i forward distance steps offset turnedAround ignoreChildrenDepth)
  show ?case
  proof (cases "0 \<le> i \<and> i \<le> getLength d")
    case False
    then show ?thesis using "1.prems"(1) by (subst getRelativeOffset_loop.simps) auto
  next
    case inr: True
    define x where "x = i + (if forward then - 1 else 0)"
    obtain ign where ign: "(if isElementData d x
                 then bindE (getType d x) (\<lambda>t. shouldIgnoreChildren reg (js_string t))
                 else Inr False) = Inr ign"
      using ignoreCheck_ok[OF "1.prems"(3)] by blast
    obtain v where v: "callback i = Inr v" using "1.prems"(4) by blast
    obtain sv where sv: "callback start = Inr sv" using "1.prems"(4) by blast
    obtain tn where tn: "andE (Inr (\<not> turnedAround \<and> steps = 0))
                                 (orE (Inr (\<not> forward \<and> i = 0))
                                   (andE (Inr forward)
                                     (orE (Inr (i = getLength d))
                                          (bindE (getType d (i - 1))
                                             (\<lambda>t. Inr (t = Some ''internalList'')))))) = Inr tn"
      using edge_ok[OF "1.prems"(3) _ _ "1.prems"(2)] inr by blast
    define entered where "entered = ((forward \<and> isOpenElementData d x) \<or> (\<not> forward \<and> \<not> isOpenElementData d x))"
    define depth' where "depth' = (if ign then (if entered then ignoreChildrenDepth + 1 else ignoreChildrenDepth - 1) else ignoreChildrenDepth)"
    note unf = loop_unfold[OF conjunct1[OF inr] conjunct2[OF inr] ign[unfolded x_def] v tn sv
        entered_def[unfolded x_def] depth'_def, of distance offset]
    have inr': "\<not> \<not> (0 \<le> i \<and> i \<le> getLength d)" using inr by simp
    note IH = "1.IH"[OF inr' x_def ign refl entered_def depth'_def _ v]
    have fw: "forward \<longrightarrow> 1 \<le> i + dirInt forward" using "1.prems"(2) by (auto simp add: dirInt_def)
    have bw: "\<not> forward \<longrightarrow> 1 \<le> start + dirInt (\<not> forward)" using "1.prems"(5) by (auto simp add: dirInt_def)
    have here: "v \<Longrightarrow> i = - 1 \<or> 0 \<le> i \<and> i \<le> getLength d \<and> callback i = Inr True"
      using inr v by simp
    show ?thesis
    proof (cases "ign \<and> \<not> entered \<and> depth' < 0")
      case True
      then show ?thesis unfolding unf by simp
    next
      case nA: False
      show ?thesis
      proof (cases v)
        case True
        show ?thesis
        proof (cases "depth' = 0")
          case d0: True
          show ?thesis
          proof (cases "distance = steps + 1")
            case True
            then show ?thesis unfolding unf using nA \<open>v\<close> d0 here by simp
          next
            case False
            from IH(1)[OF nA \<open>v\<close> d0 False here[OF \<open>v\<close>] fw "1.prems"(3,4,5,6)]
            show ?thesis unfolding unf using nA \<open>v\<close> d0 False by simp
          qed
        next
          case False
          from IH(2)[OF nA \<open>v\<close> False "1.prems"(1) fw "1.prems"(3,4,5,6)]
          show ?thesis unfolding unf using nA \<open>v\<close> False by simp
        qed
      next
        case nv: False
        show ?thesis
        proof (cases tn)
          case True
          show ?thesis
          proof (cases sv)
            case True
            then show ?thesis unfolding unf using nA nv \<open>tn\<close> sv "1.prems"(5,6) by simp
          next
            case False
            from IH(3)[OF nA nv tn \<open>tn\<close> sv False "1.prems"(1) bw "1.prems"(3,4,5,6)]
            show ?thesis unfolding unf using nA nv \<open>tn\<close> False by simp
          qed
        next
          case False
          from IH(4)[OF nA nv tn False "1.prems"(1) fw "1.prems"(3,4,5,6)]
          show ?thesis unfolding unf using nA nv False by simp
        qed
      qed
    qed
  qed
qed

lemma loop_done:
  "\<not> (0 \<le> i \<and> i \<le> getLength d) \<Longrightarrow>
   getRelativeOffset_loop reg d callback start i forward distance steps offset turnedAround depth = Inr offset"
  by (subst getRelativeOffset_loop.simps) simp

lemma nthOrLast_Cons:
  "1 < n \<Longrightarrow> nthOrLast n fallback (x # xs) = nthOrLast (n - 1) x xs"
  by (cases xs) (auto simp: nthOrLast_def nth_Cons')

lemma nthOrLast_one: "nthOrLast (Suc 0) fallback (x # xs) = x"
  by (simp add: nthOrLast_def)

lemma getRelativeOffset_safe:
  assumes r: "registeredData reg d" and st: "0 \<le> start" "start \<le> getLength d"
  shows "\<exists>r. getRelativeOffset reg d start distance (\<lambda>j. Inr (p j)) = Inr r \<and>
             (r = -1 \<or> (0 \<le> r \<and> r \<le> getLength d \<and> p r))"
proof -
  have cb: "\<And>j. \<exists>b. (\<lambda>j. Inr (p j)) j = (Inr b :: error + bool)" by simp
  have run: "\<exists>r. getRelativeOffset_loop reg d (\<lambda>j. Inr (p j)) start (start + dirInt forward) forward n 0 (-1) False 0 = Inr r \<and>
             (r = -1 \<or> (0 \<le> r \<and> r \<le> getLength d \<and> p r))" for forward n
    using loop_ok[OF r cb st, where offset = "-1" and forward = forward and i = "start + dirInt forward"
                    and distance = n and steps = 0 and turned = False and depth = 0] st
    by (auto simp: dirInt_def)
  show ?thesis
    using run st by (auto simp: getRelativeOffset_def Let_def)
qed

lemma nthOrLast_Nil: "nthOrLast n fallback [] = fallback"
  by (simp add: nthOrLast_def)

lemma searchOffsets_Nil:
  "searchOffsets len s forward = [] \<Longrightarrow> 0 \<le> s \<Longrightarrow> s \<le> len \<Longrightarrow>
   \<not> (0 \<le> s + dirInt forward \<and> s + dirInt forward \<le> len)"
  by (auto simp: searchOffsets_def dirInt_def split: if_splits)

lemma searchOffsets_Cons:
  "searchOffsets len s forward = x # xs \<Longrightarrow> 0 \<le> s \<Longrightarrow> s \<le> len \<Longrightarrow>
   x = s + dirInt forward \<and> 0 \<le> x \<and> x \<le> len \<and> (forward \<longrightarrow> 1 \<le> x) \<and>
   xs = searchOffsets len x forward"
proof (cases forward)
  case True
  assume a: "searchOffsets len s forward = x # xs" "0 \<le> s" "s \<le> len"
  have ne: "s + 1 \<le> len"
  proof (rule ccontr)
    assume "\<not> s + 1 \<le> len"
    then have "[s + 1..len] = []" by simp
    then show False using a True by (simp add: searchOffsets_def)
  qed
  then have "[s + 1..len] = (s + 1) # [s + 1 + 1..len]" by (simp add: upto_rec1)
  then show ?thesis using a True ne by (auto simp: searchOffsets_def dirInt_def)
next
  case False
  assume a: "searchOffsets len s forward = x # xs" "0 \<le> s" "s \<le> len"
  have ne: "0 \<le> s - 1"
  proof (rule ccontr)
    assume "\<not> 0 \<le> s - 1"
    then have "[0..s - 1] = []" by simp
    then show False using a False by (simp add: searchOffsets_def)
  qed
  then have "rev [0..s - 1] = (s - 1) # rev [0..s - 1 - 1]" by (simp add: upto_rec2)
  then show ?thesis using a False ne by (auto simp: searchOffsets_def dirInt_def)
qed

lemma ignoreDepth_start: "ignoreDepth reg d start forward start = 0"
  by (simp add: ignoreDepth_def)

lemma ignoreDepth_step:
  assumes "forward \<longrightarrow> start \<le> s" "\<not> forward \<longrightarrow> s \<le> start"
  shows "ignoreDepth reg d start forward (s + dirInt forward) =
         ignoreDepth reg d start forward s + ignoreDelta reg d forward (s + dirInt forward)"
proof (cases forward)
  case True
  then have "[start + 1..s + 1] = [start + 1..s] @ [s + 1]" using assms by (simp add: upto_rec2)
  then show ?thesis using True by (simp add: ignoreDepth_def dirInt_def)
next
  case False
  then have "[s - 1..start - 1] = (s - 1) # [s..start - 1]" using assms by (simp add: upto_rec1)
  then show ?thesis using False by (simp add: ignoreDepth_def dirInt_def)
qed

lemma ignoreCheck_eq:
  assumes "registeredData reg d"
  shows "(if isElementData d x
          then bindE (getType d x) (\<lambda>t. shouldIgnoreChildren reg (js_string t))
          else Inr False) = Inr (ignoresChildrenAt reg d x)"
  using ignoreCheck_ok[OF assms, of x] by (auto simp: ignoresChildrenAt_def)

lemma edge_eq:
  assumes "registeredData reg d" "0 \<le> i" "i \<le> getLength d" "forward \<longrightarrow> 1 \<le> i"
  shows "andE (Inr (\<not> turnedAround \<and> steps = 0))
           (orE (Inr (\<not> forward \<and> i = 0))
             (andE (Inr forward)
               (orE (Inr (i = getLength d))
                    (bindE (getType d (i - 1)) (\<lambda>t. Inr (t = Some ''internalList'')))))) =
         Inr (\<not> turnedAround \<and> steps = 0 \<and> atEdge d forward i)"
proof (cases "forward \<and> i \<noteq> getLength d")
  case True
  then have "0 \<le> i - 1" "i - 1 < getLength d" using assms by auto
  from getType_registered[OF assms(1) this] obtain t where "getType d (i - 1) = Inr t" by blast
  then show ?thesis using True
    by (auto simp: andE_def orE_def bindE_def atEdge_def)
next
  case False
  then show ?thesis by (auto simp: andE_def orE_def bindE_def atEdge_def)
qed

lemma loop_walk:
  assumes "registeredData reg d" "0 \<le> i" "i \<le> getLength d" "forward \<longrightarrow> 1 \<le> i"
    and "dep' = dep + ignoreDelta reg d forward i"
  shows "getRelativeOffset_loop reg d (\<lambda>j. Inr (p j)) start i forward distance steps offset turnedAround dep =
     (if ignoreDelta reg d forward i = -1 \<and> dep' < 0 then Inr (-1)
      else if p i then
        (if dep' = 0 then
           (if distance = steps + 1 then Inr i
            else getRelativeOffset_loop reg d (\<lambda>j. Inr (p j)) start (i + dirInt forward)
                   forward distance (steps + 1) i turnedAround dep')
         else getRelativeOffset_loop reg d (\<lambda>j. Inr (p j)) start (i + dirInt forward)
                forward distance steps offset turnedAround dep')
      else if \<not> turnedAround \<and> steps = 0 \<and> atEdge d forward i then
        (if p start then Inr start
         else getRelativeOffset_loop reg d (\<lambda>j. Inr (p j)) start (start + dirInt (\<not> forward)) (\<not> forward) 1
                steps offset True 0)
      else getRelativeOffset_loop reg d (\<lambda>j. Inr (p j)) start (i + dirInt forward)
             forward distance steps offset turnedAround dep')"
  by (subst loop_unfold[OF assms(2,3) ignoreCheck_eq[OF assms(1)] refl
        edge_eq[OF assms(1-4)] refl refl refl])
     (auto simp: assms(5) ignoreDelta_def Let_def)

lemma walk_counting:
  assumes r: "registeredData reg d"
  shows "0 \<le> s \<Longrightarrow> s \<le> getLength d \<Longrightarrow> (forward \<longrightarrow> start \<le> s) \<Longrightarrow> (\<not> forward \<longrightarrow> s \<le> start) \<Longrightarrow>
         0 \<le> steps \<Longrightarrow> steps < dist \<Longrightarrow> 0 < steps \<or> turned \<Longrightarrow>
         \<forall>j \<in> set (searchOffsets (getLength d) s forward). 0 \<le> ignoreDepth reg d start forward j \<Longrightarrow>
         getRelativeOffset_loop reg d (\<lambda>j. Inr (p j)) start (s + dirInt forward) forward dist steps off turned
             (ignoreDepth reg d start forward s) =
           Inr (nthOrLast (nat (dist - steps)) off
                  (filter (reachable reg d p start forward) (searchOffsets (getLength d) s forward)))"
proof (induction "searchOffsets (getLength d) s forward" arbitrary: s steps off)
  case Nil
  have "\<not> (0 \<le> s + dirInt forward \<and> s + dirInt forward \<le> getLength d)"
    using searchOffsets_Nil[OF Nil(1)[symmetric] Nil(2,3)] .
  then show ?case by (simp add: loop_done Nil(1)[symmetric] nthOrLast_Nil)
next
  case (Cons x xs)
  note c = searchOffsets_Cons[OF Cons(2)[symmetric] Cons.prems(1,2)]
  have x: "x = s + dirInt forward" and range: "0 \<le> x" "x \<le> getLength d"
    and fw: "forward \<longrightarrow> 1 \<le> x" and xs: "xs = searchOffsets (getLength d) x forward"
    using c by auto
  define dep' where "dep' = ignoreDepth reg d start forward x"
  have dep: "dep' = ignoreDepth reg d start forward s + ignoreDelta reg d forward x"
    unfolding dep'_def x by (rule ignoreDepth_step[OF Cons.prems(3,4)])
  have nn: "0 \<le> dep'" using Cons.prems(8) Cons(2)[symmetric] by (simp add: dep'_def)
  have rest: "\<forall>j \<in> set (searchOffsets (getLength d) x forward). 0 \<le> ignoreDepth reg d start forward j"
    using Cons.prems(8) Cons(2)[symmetric] xs by simp
  have beyond: "forward \<longrightarrow> start \<le> x" "\<not> forward \<longrightarrow> x \<le> start"
    using Cons.prems(3,4) x by (auto simp: dirInt_def)
  note step = loop_walk[OF r range fw dep, of p start dist steps off turned]
  have noturn: "\<not> (\<not> turned \<and> steps = 0 \<and> atEdge d forward x)" using Cons.prems(5,7) by auto
  have list: "searchOffsets (getLength d) s forward = x # searchOffsets (getLength d) x forward"
    using Cons(2)[symmetric] xs by simp
  show ?case
  proof (cases "p x \<and> dep' = 0")
    case True
    then have rx: "reachable reg d p start forward x" by (simp add: reachable_def dep'_def)
    show ?thesis
    proof (cases "dist = steps + 1")
      case d: True
      then show ?thesis unfolding x[symmetric] dep'_def[symmetric] step list using True nn rx
        by (simp add: nthOrLast_one)
    next
      case d: False
      then have lt: "steps + 1 < dist" using Cons.prems(6) by simp
      have n: "1 < nat (dist - steps)" using lt by simp
      have "getRelativeOffset_loop reg d (\<lambda>j. Inr (p j)) start (x + dirInt forward) forward dist (steps + 1) x turned
             (ignoreDepth reg d start forward x) =
            Inr (nthOrLast (nat (dist - (steps + 1))) x
                  (filter (reachable reg d p start forward) (searchOffsets (getLength d) x forward)))"
        using Cons.hyps(1)[OF xs range beyond _ lt _ rest, of x] Cons.prems(5) by simp
      moreover have "nat (dist - (steps + 1)) = nat (dist - steps) - 1" by simp
      ultimately show ?thesis unfolding x[symmetric] dep'_def[symmetric] step list using True nn rx d
        by (simp add: nthOrLast_Cons[OF n] dep'_def)
    qed
  next
    case False
    then have rx: "\<not> reachable reg d p start forward x" by (auto simp: reachable_def dep'_def)
    have "getRelativeOffset_loop reg d (\<lambda>j. Inr (p j)) start (x + dirInt forward) forward dist steps off turned
             (ignoreDepth reg d start forward x) =
            Inr (nthOrLast (nat (dist - steps)) off
                  (filter (reachable reg d p start forward) (searchOffsets (getLength d) x forward)))"
      using Cons.hyps(1)[OF xs range beyond Cons.prems(5,6,7) rest] .
    then show ?thesis unfolding x[symmetric] dep'_def[symmetric] step list using False nn rx noturn
      by (auto simp: dep'_def)
  qed
qed

lemma walk_search:
  assumes r: "registeredData reg d"
  shows "0 \<le> s \<Longrightarrow> s \<le> getLength d \<Longrightarrow> (forward \<longrightarrow> start \<le> s) \<Longrightarrow> (\<not> forward \<longrightarrow> s \<le> start) \<Longrightarrow>
         0 < dist \<Longrightarrow>
         \<forall>j \<in> set (searchOffsets (getLength d) s forward). 0 \<le> ignoreDepth reg d start forward j \<Longrightarrow>
         getRelativeOffset_loop reg d (\<lambda>j. Inr (p j)) start (s + dirInt forward) forward dist 0 off False
             (ignoreDepth reg d start forward s) =
           (if \<exists>k \<in> set (takeWhile (\<lambda>j. \<not> reachable reg d p start forward j)
                            (searchOffsets (getLength d) s forward)). \<not> p k \<and> atEdge d forward k
            then (if p start then Inr start
                  else getRelativeOffset_loop reg d (\<lambda>j. Inr (p j)) start (start + dirInt (\<not> forward))
                         (\<not> forward) 1 0 off True 0)
            else Inr (nthOrLast (nat dist) off
                  (filter (reachable reg d p start forward) (searchOffsets (getLength d) s forward))))"
proof (induction "searchOffsets (getLength d) s forward" arbitrary: s)
  case Nil
  have "\<not> (0 \<le> s + dirInt forward \<and> s + dirInt forward \<le> getLength d)"
    using searchOffsets_Nil[OF Nil(1)[symmetric] Nil(2,3)] .
  then show ?case by (simp add: loop_done Nil(1)[symmetric] nthOrLast_Nil)
next
  case (Cons x xs)
  note c = searchOffsets_Cons[OF Cons(2)[symmetric] Cons.prems(1,2)]
  have x: "x = s + dirInt forward" and range: "0 \<le> x" "x \<le> getLength d"
    and fw: "forward \<longrightarrow> 1 \<le> x" and xs: "xs = searchOffsets (getLength d) x forward"
    using c by auto
  define dep' where "dep' = ignoreDepth reg d start forward x"
  have dep: "dep' = ignoreDepth reg d start forward s + ignoreDelta reg d forward x"
    unfolding dep'_def x by (rule ignoreDepth_step[OF Cons.prems(3,4)])
  have nn: "0 \<le> dep'" using Cons.prems(6) Cons(2)[symmetric] by (simp add: dep'_def)
  have rest: "\<forall>j \<in> set (searchOffsets (getLength d) x forward). 0 \<le> ignoreDepth reg d start forward j"
    using Cons.prems(6) Cons(2)[symmetric] xs by simp
  have beyond: "forward \<longrightarrow> start \<le> x" "\<not> forward \<longrightarrow> x \<le> start"
    using Cons.prems(3,4) x by (auto simp: dirInt_def)
  note step = loop_walk[OF r range fw dep, of p start dist 0 off False]
  have list: "searchOffsets (getLength d) s forward = x # searchOffsets (getLength d) x forward"
    using Cons(2)[symmetric] xs by simp
  show ?case
  proof (cases "p x \<and> dep' = 0")
    case True
    then have rx: "reachable reg d p start forward x" by (simp add: reachable_def dep'_def)
    show ?thesis
    proof (cases "dist = 1")
      case d: True
      then show ?thesis unfolding x[symmetric] dep'_def[symmetric] step list using True nn rx
        by (simp add: nthOrLast_one)
    next
      case d: False
      then have lt: "0 + 1 < dist" using Cons.prems(5) by simp
      have n: "1 < nat dist" using lt by simp
      have "getRelativeOffset_loop reg d (\<lambda>j. Inr (p j)) start (x + dirInt forward) forward dist (0 + 1) x False
             (ignoreDepth reg d start forward x) =
            Inr (nthOrLast (nat (dist - (0 + 1))) x
                  (filter (reachable reg d p start forward) (searchOffsets (getLength d) x forward)))"
        by (rule walk_counting[OF r range beyond _ lt _ rest]) simp_all
      moreover have "nat (dist - (0 + 1)) = nat dist - 1" by simp
      ultimately show ?thesis unfolding x[symmetric] dep'_def[symmetric] step list using True nn rx d
        by (simp add: nthOrLast_Cons[OF n] dep'_def)
    qed
  next
    case False
    then have rx: "\<not> reachable reg d p start forward x" by (auto simp: reachable_def dep'_def)
    note IH = Cons.hyps(1)[OF xs range beyond Cons.prems(5) rest]
    show ?thesis
    proof (cases "\<not> p x \<and> atEdge d forward x")
      case True
      then show ?thesis unfolding x[symmetric] dep'_def[symmetric] step list using nn rx
        by (auto simp: dep'_def)
    next
      case ne: False
      show ?thesis unfolding x[symmetric] dep'_def[symmetric] step list using False nn rx ne IH
        by (auto simp: dep'_def)
    qed
  qed
qed

lemma getRelativeOffset_turned:
  assumes r: "registeredData reg d" and st: "0 \<le> start" "start \<le> getLength d"
    and out: "notInsideIgnored reg d start forward"
  shows "getRelativeOffset_loop reg d (\<lambda>j. Inr (p j)) start (start + dirInt forward) forward 1 0 off True 0 =
           Inr (nthOrLast 1 off (reachableBeyond reg d p start forward))"
proof -
  have "getRelativeOffset_loop reg d (\<lambda>j. Inr (p j)) start (start + dirInt forward) forward 1 0 off True
             (ignoreDepth reg d start forward start) =
           Inr (nthOrLast (nat (1 - 0)) off
                  (filter (reachable reg d p start forward) (searchOffsets (getLength d) start forward)))"
    by (rule walk_counting[OF r st]) (use out in \<open>simp_all add: notInsideIgnored_def list_all_iff\<close>)
  then show ?thesis unfolding ignoreDepth_start reachableBeyond_def by simp
qed

lemma getRelativeOffset_run:
  assumes r: "registeredData reg d" and st: "0 \<le> start" "start \<le> getLength d"
    and out: "notInsideIgnored reg d start forward" and n: "0 < n"
  shows "getRelativeOffset_loop reg d (\<lambda>j. Inr (p j)) start (start + dirInt forward) forward n 0 (-1) False 0 =
           (if turnsAround reg d p start forward
            then (if p start then Inr start
                  else getRelativeOffset_loop reg d (\<lambda>j. Inr (p j)) start (start + dirInt (\<not> forward))
                         (\<not> forward) 1 0 (-1) True 0)
            else Inr (nthOrLast (nat n) (-1) (reachableBeyond reg d p start forward)))"
proof -
  have "getRelativeOffset_loop reg d (\<lambda>j. Inr (p j)) start (start + dirInt forward) forward n 0 (-1) False
             (ignoreDepth reg d start forward start) =
           (if \<exists>k \<in> set (takeWhile (\<lambda>j. \<not> reachable reg d p start forward j)
                            (searchOffsets (getLength d) start forward)). \<not> p k \<and> atEdge d forward k
            then (if p start then Inr start
                  else getRelativeOffset_loop reg d (\<lambda>j. Inr (p j)) start (start + dirInt (\<not> forward))
                         (\<not> forward) 1 0 (-1) True 0)
            else Inr (nthOrLast (nat n) (-1)
                  (filter (reachable reg d p start forward) (searchOffsets (getLength d) start forward))))"
    by (rule walk_search[OF r st]) (use out n in \<open>simp_all add: notInsideIgnored_def list_all_iff\<close>)
  then show ?thesis unfolding ignoreDepth_start reachableBeyond_def turnsAround_def list_ex_iff .
qed

lemma getRelativeOffset_unfold:
  assumes "distance \<noteq> 0 \<or> \<not> p start"
  shows "getRelativeOffset reg d start distance (\<lambda>j. Inr (p j)) =
      getRelativeOffset_loop reg d (\<lambda>j. Inr (p j)) start
        (start + dirInt (searchForward (getLength d) start distance))
        (searchForward (getLength d) start distance) (int (searchSteps distance)) 0 (-1) False 0"
  using assms by (auto simp: getRelativeOffset_def searchForward_def searchSteps_def Let_def)

lemma getRelativeOffset_exact:
  assumes r: "registeredData reg d" and st: "0 \<le> start" "start \<le> getLength d"
    and dist: "distance \<noteq> 0 \<or> \<not> p start"
    and fw: "forward = searchForward (getLength d) start distance"
    and out: "notInsideIgnored reg d start forward"
  shows "getRelativeOffset reg d start distance (\<lambda>j. Inr (p j)) =
           (if turnsAround reg d p start forward
            then (if p start then Inr start
                  else getRelativeOffset_loop reg d (\<lambda>j. Inr (p j)) start (start + dirInt (\<not> forward))
                         (\<not> forward) 1 0 (-1) True 0)
            else Inr (nthOrLast (searchSteps distance) (-1) (reachableBeyond reg d p start forward)))"
proof -
  have n: "0 < int (searchSteps distance)" by (simp add: searchSteps_def)
  show ?thesis
    unfolding getRelativeOffset_unfold[where p = p and start = start, OF dist] fw[symmetric]
    using getRelativeOffset_run[OF r st out n, of p] by simp
qed

text \<open>
  C2, as the code has it. On registered data, from a starting offset between 0 and the
  length, with any predicate that does not throw and any distance, \<open>getRelativeOffset\<close>
  returns without throwing, and returns either -1 or an offset between 0 and the length
  that satisfies the predicate; so it returns -1 when no offset satisfies the predicate.
  With distance 0 at a valid start it returns the start. Otherwise, when the start is not
  inside an ignored node for the direction the search sets out in: if the search does not
  turn around, it returns the \<open>n\<close>-th reachable offset beyond the start in that direction,
  \<open>n\<close> being the magnitude of the distance (1 for distance 0), the last of them when there
  are fewer than \<open>n\<close>, and -1 when there is none; if it turns around at a valid start, it
  returns the start; and if it turns around at a start that is not valid, and not inside
  an ignored node for the other direction, it returns the nearest reachable offset in the
  other direction, and -1 when there is none.
\<close>

theorem getRelativeOffset_total:
  assumes "registeredData reg d" and "0 \<le> start" and "start \<le> getLength d"
  shows "\<exists>r. getRelativeOffset reg d start distance (\<lambda>j. Inr (p j)) = Inr r \<and>
             (r = -1 \<or> (0 \<le> r \<and> r \<le> getLength d \<and> p r)) \<and>
             ((\<forall>j. 0 \<le> j \<and> j \<le> getLength d \<longrightarrow> \<not> p j) \<longrightarrow> r = -1) \<and>
             (distance = 0 \<and> p start \<longrightarrow> r = start) \<and>
             (let forward = searchForward (getLength d) start distance;
                  n = searchSteps distance;
                  xs = reachableBeyond reg d p start forward;
                  ys = reachableBeyond reg d p start (\<not> forward)
              in \<not> (distance = 0 \<and> p start) \<and> notInsideIgnored reg d start forward \<longrightarrow>
                   (\<not> turnsAround reg d p start forward \<longrightarrow>
                      (n \<le> length xs \<longrightarrow> r = xs ! (n - 1)) \<and>
                      (xs \<noteq> [] \<and> length xs < n \<longrightarrow> r = last xs) \<and>
                      (xs = [] \<longrightarrow> r = -1)) \<and>
                   (turnsAround reg d p start forward \<and> p start \<longrightarrow> r = start) \<and>
                   (turnsAround reg d p start forward \<and> \<not> p start \<and>
                    notInsideIgnored reg d start (\<not> forward) \<longrightarrow>
                      (ys \<noteq> [] \<longrightarrow> r = hd ys) \<and> (ys = [] \<longrightarrow> r = -1)))"
proof -
  obtain r where r: "getRelativeOffset reg d start distance (\<lambda>j. Inr (p j)) = Inr r"
    and range: "r = -1 \<or> (0 \<le> r \<and> r \<le> getLength d \<and> p r)"
    using getRelativeOffset_safe[OF assms] by blast
  define forward where "forward = searchForward (getLength d) start distance"
  define n where "n = searchSteps distance"
  define xs where "xs = reachableBeyond reg d p start forward"
  define ys where "ys = reachableBeyond reg d p start (\<not> forward)"
  have n: "0 < n" by (simp add: n_def searchSteps_def)
  have zero: "distance = 0 \<and> p start \<longrightarrow> r = start"
    using r by (auto simp: getRelativeOffset_def)
  have exact: "getRelativeOffset reg d start distance (\<lambda>j. Inr (p j)) =
           (if turnsAround reg d p start forward
            then (if p start then Inr start
                  else getRelativeOffset_loop reg d (\<lambda>j. Inr (p j)) start (start + dirInt (\<not> forward))
                         (\<not> forward) 1 0 (-1) True 0)
            else Inr (nthOrLast n (-1) xs))"
    if "\<not> (distance = 0 \<and> p start)" "notInsideIgnored reg d start forward"
    unfolding n_def xs_def
    by (rule getRelativeOffset_exact[OF assms _ forward_def]) (use that in auto)
  have straight: "(n \<le> length xs \<longrightarrow> r = xs ! (n - 1)) \<and>
                      (xs \<noteq> [] \<and> length xs < n \<longrightarrow> r = last xs) \<and>
                      (xs = [] \<longrightarrow> r = -1)"
    if "\<not> (distance = 0 \<and> p start)" "notInsideIgnored reg d start forward"
       "\<not> turnsAround reg d p start forward"
    using exact[OF that(1,2)] that(3) r n by (auto simp: nthOrLast_def)
  have stay: "r = start"
    if "\<not> (distance = 0 \<and> p start)" "notInsideIgnored reg d start forward"
       "turnsAround reg d p start forward" "p start"
    using exact[OF that(1,2)] that(3,4) r by simp
  have turned: "(ys \<noteq> [] \<longrightarrow> r = hd ys) \<and> (ys = [] \<longrightarrow> r = -1)"
    if "\<not> (distance = 0 \<and> p start)" "notInsideIgnored reg d start forward"
       "turnsAround reg d p start forward" "\<not> p start" "notInsideIgnored reg d start (\<not> forward)"
    using exact[OF that(1,2)] that(3,4) r
      getRelativeOffset_turned[OF assms that(5), of p "-1"]
    by (cases ys) (auto simp: nthOrLast_def ys_def)
  show ?thesis
    using r range zero straight stay turned
    unfolding Let_def forward_def[symmetric] n_def[symmetric] xs_def[symmetric] ys_def[symmetric]
    by blast
qed

lemma abcDocument_registered: "registeredData exampleRegistry abcDocument"
  by (simp add: registeredData_def abcDocument_def el_def newElement_def baseType_def isCloseName_def
      slice1_def exampleRegistry_def)

lemma alienParagraph_registered: "registeredData exampleRegistry alienParagraph"
  by (simp add: registeredData_def alienParagraph_def el_def newElement_def baseType_def isCloseName_def
      slice1_def exampleRegistry_def)

theorem getRelativeOffset_total_witness:
  "registeredData exampleRegistry abcDocument \<and> getLength abcDocument = 7 \<and>
   getRelativeContentOffset exampleRegistry abcDocument 1 10 = Inr 4 \<and>
   getRelativeContentOffset exampleRegistry abcDocument 4 1 = Inr 4 \<and>
   getRelativeContentOffset exampleRegistry abcDocument 5 1 = Inr 4 \<and>
   registeredData exampleRegistry alienParagraph \<and>
   getRelativeOffset exampleRegistry alienParagraph 2 1 (\<lambda>j. Inr True) = Inr 4"
proof -
  define p where "p j = (isContentOffset exampleRegistry abcDocument j = Inr True)" for j
  have cb: "isContentOffset exampleRegistry abcDocument = (\<lambda>j. Inr (p j))"
  proof
    fix j show "isContentOffset exampleRegistry abcDocument j = Inr (p j)"
      using isContentOffset_total[OF abcDocument_registered, of j] by (auto simp: p_def)
  qed
  have len: "getLength abcDocument = 7" by (simp add: abcDocument_def getLength_def)
  have p: "\<not> p 0" "p 1" "p 2" "p 3" "p 4" "\<not> p 5" "\<not> p 6" "\<not> p 7"
    by (simp_all add: p_def abcDocument_def offset_eval)
  have far: "getRelativeOffset exampleRegistry abcDocument 1 10 (\<lambda>j. Inr (p j)) = Inr 4"
  proof -
    have out: "notInsideIgnored exampleRegistry abcDocument 1 True"
      by (simp add: search_eval abcDocument_def offset_eval)
    have xs: "reachableBeyond exampleRegistry abcDocument p 1 True = [2, 3, 4]"
      by (simp add: search_eval abcDocument_def offset_eval p)
    have nt: "\<not> turnsAround exampleRegistry abcDocument p 1 True"
      by (simp add: search_eval abcDocument_def offset_eval p)
    show ?thesis
      using getRelativeOffset_total[OF abcDocument_registered, of 1 10 p] out xs nt
      by (auto simp: len Let_def searchForward_def searchSteps_def)
  qed
  have stay: "getRelativeOffset exampleRegistry abcDocument 4 1 (\<lambda>j. Inr (p j)) = Inr 4"
  proof -
    have out: "notInsideIgnored exampleRegistry abcDocument 4 True"
      by (simp add: search_eval abcDocument_def offset_eval)
    have t: "turnsAround exampleRegistry abcDocument p 4 True"
      by (simp add: search_eval abcDocument_def offset_eval p)
    show ?thesis
      using getRelativeOffset_total[OF abcDocument_registered, of 4 1 p] out t p
      by (auto simp: len Let_def searchForward_def searchSteps_def)
  qed
  have turn: "getRelativeOffset exampleRegistry abcDocument 5 1 (\<lambda>j. Inr (p j)) = Inr 4"
  proof -
    have out: "notInsideIgnored exampleRegistry abcDocument 5 True"
      "notInsideIgnored exampleRegistry abcDocument 5 False"
      by (simp_all add: search_eval abcDocument_def offset_eval)
    have t: "turnsAround exampleRegistry abcDocument p 5 True"
      by (simp add: search_eval abcDocument_def offset_eval p)
    have ys: "reachableBeyond exampleRegistry abcDocument p 5 False = [4, 3, 2, 1]"
      by (simp add: search_eval abcDocument_def offset_eval p)
    show ?thesis
      using getRelativeOffset_total[OF abcDocument_registered, of 5 1 p] out t p ys
      by (auto simp: len Let_def searchForward_def searchSteps_def)
  qed
  have alen: "getLength alienParagraph = 6" by (simp add: alienParagraph_def getLength_def)
  have over: "getRelativeOffset exampleRegistry alienParagraph 2 1 (\<lambda>j. Inr True) = Inr 4"
  proof -
    have out: "notInsideIgnored exampleRegistry alienParagraph 2 True"
      by (simp add: search_eval alienParagraph_def offset_eval)
    have xs: "reachableBeyond exampleRegistry alienParagraph (\<lambda>j. True) 2 True = [4, 5, 6]"
      by (simp add: search_eval alienParagraph_def offset_eval)
    have nt: "\<not> turnsAround exampleRegistry alienParagraph (\<lambda>j. True) 2 True"
      by (simp add: search_eval alienParagraph_def offset_eval)
    show ?thesis
      using getRelativeOffset_total[OF alienParagraph_registered, of 2 1 "\<lambda>j. True"] out xs nt
      by (auto simp: alen Let_def searchForward_def searchSteps_def)
  qed
  show ?thesis
    using abcDocument_registered alienParagraph_registered len far stay turn over
    by (simp add: getRelativeContentOffset_def cb)
qed

text \<open>
  The claim as stated fails where the search starts inside a node whose children are
  ignored: every offset is valid, three of them lie to the right of the start, and the
  search returns -1. It also fails where the search steps over an element of an
  unregistered type: the registry query throws. And an error that the callback throws is
  the error of the search.
\<close>

theorem getRelativeOffset_inside_ignored_counterexample:
  "registeredData exampleRegistry alienParagraph \<and>
   offsetsBeyond (\<lambda>j. True) (getLength alienParagraph) 3 (searchForward (getLength alienParagraph) 3 5)
     = [4, 5, 6] \<and>
   getRelativeOffset exampleRegistry alienParagraph 3 5 (\<lambda>j. Inr True) = Inr (-1) \<and>
   getRelativeOffset exampleRegistry tableDocument 0 2 (\<lambda>j. Inr True) = Inl (UnknownNodeType ''table'') \<and>
   registeredData exampleRegistry abcDocument \<and>
   getRelativeOffset exampleRegistry abcDocument 1 1 (\<lambda>j. Inl TypeError) = Inl TypeError"
  by (simp add: alienParagraph_def tableDocument_def abcDocument_def registeredData_def baseType_def
      offsetsBeyond_def searchForward_def offset_eval)

subsection \<open>Nearest offsets\<close>

lemma ignoreCheck_local:
  assumes "registeredItem reg (getData d x)"
  shows "(if isElementData d x
          then bindE (getType d x) (\<lambda>t. shouldIgnoreChildren reg (js_string t))
          else Inr False) = Inr (ignoresChildrenAt reg d x)"
proof (cases "getData d x")
  case (Elem e)
  then have r: "reg (baseType (type e)) \<noteq> None" using assms by simp
  have t: "getType d x = Inr (Some (baseType (type e)))"
    using Elem by (auto simp: getType_def isCloseElementData_def Let_def js_string_def baseType_def)
  show ?thesis
    using Elem r
    by (auto simp: t ignoresChildrenAt_def isElementData_def bindE_def shouldIgnoreChildren_def
        js_string_def)
qed (auto simp: ignoresChildrenAt_def isElementData_def)

lemma edge_local:
  assumes "forward \<longrightarrow> registeredItem reg (getData d (i - 1))"
  shows "andE (Inr (\<not> turnedAround \<and> steps = 0))
           (orE (Inr (\<not> forward \<and> i = 0))
             (andE (Inr forward)
               (orE (Inr (i = getLength d))
                    (bindE (getType d (i - 1)) (\<lambda>t. Inr (t = Some ''internalList'')))))) =
         Inr (\<not> turnedAround \<and> steps = 0 \<and> atEdge d forward i)"
proof (cases "forward \<and> i \<noteq> getLength d")
  case True
  then have "getData d (i - 1) \<noteq> Undefined" using assms by auto
  then obtain t where "getType d (i - 1) = Inr t"
    by (cases "isCloseElementData d (i - 1)") (auto simp: getType_def Let_def)
  then show ?thesis using True
    by (auto simp: andE_def orE_def bindE_def atEdge_def)
next
  case False
  then show ?thesis by (auto simp: andE_def orE_def bindE_def atEdge_def)
qed

lemma loop_walk_local:
  assumes "0 \<le> i" "i \<le> getLength d"
    and "registeredItem reg (getData d (i + (if forward then - 1 else 0)))"
    and "callback i = Inr v" and "callback start = Inr sv"
    and "dep' = dep + ignoreDelta reg d forward i"
  shows "getRelativeOffset_loop reg d callback start i forward distance steps offset turnedAround dep =
     (if ignoreDelta reg d forward i = -1 \<and> dep' < 0 then Inr (-1)
      else if v then
        (if dep' = 0 then
           (if distance = steps + 1 then Inr i
            else getRelativeOffset_loop reg d callback start (i + dirInt forward)
                   forward distance (steps + 1) i turnedAround dep')
         else getRelativeOffset_loop reg d callback start (i + dirInt forward)
                forward distance steps offset turnedAround dep')
      else if \<not> turnedAround \<and> steps = 0 \<and> atEdge d forward i then
        (if sv then Inr start
         else getRelativeOffset_loop reg d callback start (start + dirInt (\<not> forward)) (\<not> forward) 1
                steps offset True 0)
      else getRelativeOffset_loop reg d callback start (i + dirInt forward)
             forward distance steps offset turnedAround dep')"
proof -
  have e: "forward \<longrightarrow> registeredItem reg (getData d (i - 1))" using assms(3) by auto
  show ?thesis
    by (subst loop_unfold[OF assms(1,2) ignoreCheck_local[OF assms(3)] assms(4)
          edge_local[OF e] assms(5) refl refl])
       (auto simp: assms(6) ignoreDelta_def Let_def)
qed

lemma walk_first:
  assumes sv: "callback start = Inr sv"
  shows "0 \<le> s \<Longrightarrow> s \<le> getLength d \<Longrightarrow> (forward \<longrightarrow> start \<le> s) \<Longrightarrow> (\<not> forward \<longrightarrow> s \<le> start) \<Longrightarrow>
     (if forward then s < j \<and> j \<le> getLength d else 0 \<le> j \<and> j < s) \<Longrightarrow>
     callback j = Inr True \<Longrightarrow> ignoreDepth reg d start forward j = 0 \<Longrightarrow>
     \<forall>k. (if forward then s < k \<and> k < j else j < k \<and> k < s) \<longrightarrow>
        callback k = Inr False \<and> 0 \<le> ignoreDepth reg d start forward k \<and>
        (turned \<or> \<not> atEdge d forward k) \<Longrightarrow>
     \<forall>x. (if forward then s \<le> x \<and> x < j else j \<le> x \<and> x < s) \<longrightarrow>
        registeredItem reg (getData d x) \<Longrightarrow>
     getRelativeOffset_loop reg d callback start (s + dirInt forward) forward 1 0 off turned
        (ignoreDepth reg d start forward s) = Inr j"
proof (induction "nat (abs (j - s))" arbitrary: s)
  case 0
  then show ?case by (auto split: if_splits)
next
  case (Suc n)
  define x where "x = s + dirInt forward"
  have range: "0 \<le> x" "x \<le> getLength d"
    using Suc.prems(1,2,5) by (auto simp: x_def dirInt_def split: if_splits)
  have item: "registeredItem reg (getData d (x + (if forward then - 1 else 0)))"
    using Suc.prems(5,9) by (auto simp: x_def dirInt_def split: if_splits)
  define dep' where "dep' = ignoreDepth reg d start forward x"
  have dep: "dep' = ignoreDepth reg d start forward s + ignoreDelta reg d forward x"
    unfolding dep'_def x_def by (rule ignoreDepth_step[OF Suc.prems(3,4)])
  show ?case
  proof (cases "x = j")
    case True
    have v: "callback x = Inr True" using Suc.prems(6) True by simp
    have d0: "dep' = 0" using Suc.prems(7) True by (simp add: dep'_def)
    show ?thesis
      unfolding x_def[symmetric]
      by (subst loop_walk_local[OF range item v sv dep]) (simp add: d0 True)
  next
    case False
    then have between: "if forward then s < x \<and> x < j else j < x \<and> x < s"
      using Suc.prems(5) by (auto simp: x_def dirInt_def split: if_splits)
    have v: "callback x = Inr False" and nn: "0 \<le> dep'" and ne: "turned \<or> \<not> atEdge d forward x"
      using Suc.prems(8) between by (auto simp: dep'_def)
    have n: "n = nat (abs (j - x))"
      using Suc.hyps(2) between by (auto simp: x_def dirInt_def split: if_splits)
    have beyond: "forward \<longrightarrow> start \<le> x" "\<not> forward \<longrightarrow> x \<le> start"
      using Suc.prems(3,4) by (auto simp: x_def dirInt_def)
    have next_range: "if forward then x < j \<and> j \<le> getLength d else 0 \<le> j \<and> j < x"
      using Suc.prems(5) between by (auto split: if_splits)
    have rest: "\<forall>k. (if forward then x < k \<and> k < j else j < k \<and> k < x) \<longrightarrow>
        callback k = Inr False \<and> 0 \<le> ignoreDepth reg d start forward k \<and>
        (turned \<or> \<not> atEdge d forward k)"
      using Suc.prems(8) between by (auto split: if_splits)
    have items: "\<forall>y. (if forward then x \<le> y \<and> y < j else j \<le> y \<and> y < x) \<longrightarrow>
        registeredItem reg (getData d y)"
      using Suc.prems(9) between by (auto split: if_splits)
    have IH: "getRelativeOffset_loop reg d callback start (x + dirInt forward) forward 1 0 off turned
        (ignoreDepth reg d start forward x) = Inr j"
      by (rule Suc.hyps(1)[OF n range beyond next_range Suc.prems(6,7) rest items])
    show ?thesis
      unfolding x_def[symmetric]
      by (subst loop_walk_local[OF range item v sv dep]) (use nn ne IH in \<open>auto simp: dep'_def\<close>)
  qed
qed

lemma clearWay_search:
  assumes way: "clearWay reg d start forward j"
    and valid: "callback j = Inr True" "callback start = Inr False"
      "\<forall>k. (if forward then start < k \<and> k < j else j < k \<and> k < start) \<longrightarrow> callback k = Inr False"
    and st: "0 < start" "start < getLength d"
    and dist: "distance = (if forward then 1 else -1)"
  shows "getRelativeOffset reg d start distance callback = Inr j"
proof -
  have fw: "(if start \<le> 0 then True else if start \<ge> getLength d then False else distance > 0) = forward"
    using st dist by auto
  have run: "getRelativeOffset reg d start distance callback =
      getRelativeOffset_loop reg d callback start (start + dirInt forward) forward 1 0 (-1) False 0"
    using dist fw by (auto simp: getRelativeOffset_def Let_def)
  have "getRelativeOffset_loop reg d callback start (start + dirInt forward) forward 1 0 (-1) False
        (ignoreDepth reg d start forward start) = Inr j"
  proof (rule walk_first[where callback = callback and start = start and sv = False, OF valid(2)])
    show "if forward then start < j \<and> j \<le> getLength d else 0 \<le> j \<and> j < start"
      using way by (simp add: clearWay_def)
    show "ignoreDepth reg d start forward j = 0" using way by (simp add: clearWay_def)
    show "\<forall>k. (if forward then start < k \<and> k < j else j < k \<and> k < start) \<longrightarrow>
        callback k = Inr False \<and> 0 \<le> ignoreDepth reg d start forward k \<and>
        (False \<or> \<not> atEdge d forward k)"
      using way valid(3) by (auto simp: clearWay_def list_all_iff split: if_splits)
    show "\<forall>x. (if forward then start \<le> x \<and> x < j else j \<le> x \<and> x < start) \<longrightarrow>
        registeredItem reg (getData d x)"
      using way by (auto simp: clearWay_def list_all_iff split: if_splits)
  qed (use st valid(1) in auto)
  then show ?thesis unfolding run by (simp add: ignoreDepth_start)
qed

lemma walk_blocked:
  assumes sv: "callback start = Inr False"
  shows "0 \<le> s \<Longrightarrow> start \<le> s \<Longrightarrow> s < e \<Longrightarrow> e \<le> getLength d \<Longrightarrow> atEdge d True e \<Longrightarrow>
     0 \<le> ignoreDepth reg d start True e \<Longrightarrow>
     \<forall>k. s < k \<and> k < e \<longrightarrow> 0 \<le> ignoreDepth reg d start True k \<and> \<not> atEdge d True k \<Longrightarrow>
     \<forall>k. s < k \<and> k \<le> e \<longrightarrow> callback k = Inr False \<Longrightarrow>
     \<forall>x. s \<le> x \<and> x < e \<longrightarrow> registeredItem reg (getData d x) \<Longrightarrow>
     getRelativeOffset_loop reg d callback start (s + dirInt True) True dist 0 off False
        (ignoreDepth reg d start True s) =
     getRelativeOffset_loop reg d callback start (start + dirInt False) False 1 0 off True 0"
proof (induction "nat (e - s)" arbitrary: s)
  case 0
  then show ?case by auto
next
  case (Suc n)
  define x where "x = s + dirInt True"
  have x: "x = s + 1" by (simp add: x_def dirInt_def)
  have range: "0 \<le> x" "x \<le> getLength d" using Suc.prems(1,3,4) x by auto
  have item: "registeredItem reg (getData d (x + (if True then - 1 else 0)))"
    using Suc.prems(3,9) x by auto
  have v: "callback x = Inr False" using Suc.prems(3,8) x by auto
  define dep' where "dep' = ignoreDepth reg d start True x"
  have dep: "dep' = ignoreDepth reg d start True s + ignoreDelta reg d True x"
    unfolding dep'_def x_def by (rule ignoreDepth_step) (use Suc.prems(2) in auto)
  show ?case
  proof (cases "x = e")
    case True
    have nn: "0 \<le> dep'" using Suc.prems(6) True by (simp add: dep'_def)
    have edge: "atEdge d True x" using Suc.prems(5) True by simp
    show ?thesis
      unfolding x_def[symmetric]
      by (subst loop_walk_local[OF range item v sv dep]) (use nn edge in auto)
  next
    case False
    then have between: "s < x" "x < e" using Suc.prems(3) x by auto
    have nn: "0 \<le> dep'" and ne: "\<not> atEdge d True x"
      using Suc.prems(7) between by (auto simp: dep'_def)
    have n: "n = nat (e - x)" using Suc.hyps(2) x by auto
    have IH: "getRelativeOffset_loop reg d callback start (x + dirInt True) True dist 0 off False
        (ignoreDepth reg d start True x) =
      getRelativeOffset_loop reg d callback start (start + dirInt False) False 1 0 off True 0"
      by (rule Suc.hyps(1)[OF n range(1) _ between(2) Suc.prems(4,5,6)])
         (use Suc.prems(2,7,8,9) between in auto)
    show ?thesis
      unfolding x_def[symmetric]
      by (subst loop_walk_local[OF range item v sv dep]) (use nn ne IH in \<open>auto simp: dep'_def\<close>)
  qed
qed

lemma blockedWay_search:
  assumes left: "clearWay reg d start False l" and blocked: "blockedWay reg d start e"
    and valid: "callback l = Inr True" "\<forall>j. l < j \<and> j \<le> e \<longrightarrow> callback j = Inr False"
  shows "getRelativeOffset reg d start 1 callback = Inr l"
proof -
  have range: "0 \<le> l" "l < start" "start < e" "e \<le> getLength d"
    using left blocked by (simp_all add: clearWay_def blockedWay_def)
  have here: "callback start = Inr False" using valid(2) range by simp
  have run: "getRelativeOffset reg d start 1 callback =
      getRelativeOffset_loop reg d callback start (start + dirInt True) True 1 0 (-1) False 0"
    using range by (auto simp: getRelativeOffset_def Let_def)
  have turn: "getRelativeOffset_loop reg d callback start (start + dirInt True) True 1 0 (-1) False
        (ignoreDepth reg d start True start) =
      getRelativeOffset_loop reg d callback start (start + dirInt False) False 1 0 (-1) True 0"
  proof (rule walk_blocked[where callback = callback and start = start and e = e, OF here])
    show "\<forall>k. start < k \<and> k < e \<longrightarrow> 0 \<le> ignoreDepth reg d start True k \<and> \<not> atEdge d True k"
      using blocked by (auto simp: blockedWay_def list_all_iff)
    show "\<forall>x. start \<le> x \<and> x < e \<longrightarrow> registeredItem reg (getData d x)"
      using blocked by (auto simp: blockedWay_def list_all_iff)
    show "\<forall>k. start < k \<and> k \<le> e \<longrightarrow> callback k = Inr False" using valid(2) range by auto
  qed (use range blocked in \<open>auto simp: blockedWay_def\<close>)
  have "getRelativeOffset_loop reg d callback start (start + dirInt False) False 1 0 (-1) True
        (ignoreDepth reg d start False start) = Inr l"
  proof (rule walk_first[where callback = callback and start = start and sv = False, OF here])
    show "if False then start < l \<and> l \<le> getLength d else 0 \<le> l \<and> l < start"
      using range by simp
    show "ignoreDepth reg d start False l = 0" using left by (simp add: clearWay_def)
    show "\<forall>k. (if False then start < k \<and> k < l else l < k \<and> k < start) \<longrightarrow>
        callback k = Inr False \<and> 0 \<le> ignoreDepth reg d start False k \<and>
        (True \<or> \<not> atEdge d False k)"
      using left valid(2) range by (auto simp: clearWay_def list_all_iff)
    show "\<forall>x. (if False then start \<le> x \<and> x < l else l \<le> x \<and> x < start) \<longrightarrow>
        registeredItem reg (getData d x)"
      using left by (auto simp: clearWay_def list_all_iff)
  qed (use range valid(1) in auto)
  then show ?thesis unfolding run using turn by (simp add: ignoreDepth_start)
qed

text \<open>
  C3, as the code has it. Take an offset that is not a valid content (or structural)
  offset. Called with no direction (for the structural variant also with direction 0),
  \<open>getNearestContentOffset\<close> (or \<open>getNearestStructuralOffset\<close>) searches for a candidate to
  the left and for a candidate to the right, and returns the left candidate if it is
  strictly nearer and the right candidate otherwise: when both are at the same distance it
  returns the right candidate. Where \<open>l\<close> is the nearest valid offset to the left and \<open>r\<close>
  the nearest valid offset to the right, both at the same distance from the offset, and
  the ways to \<open>l\<close> and to \<open>r\<close> are clear, the candidates are \<open>l\<close> and \<open>r\<close> and the result is
  \<open>r\<close>. Where the way to the left is clear but the way to the right is blocked at an edge
  before any valid offset (the search to the right turns around after an \<open>internalList\<close>
  element, or at the end of the data), both candidates are \<open>l\<close> and the result is \<open>l\<close>.
\<close>

theorem getNearestOffset_tie_prefers_right:
  "(isContentOffset reg d offset = Inr False \<and>
    getRelativeContentOffset reg d offset (-1) = Inr cl \<and>
    getRelativeContentOffset reg d offset 1 = Inr cr \<longrightarrow>
      getNearestContentOffset reg d offset None =
        Inr (if offset - cl < cr - offset then cl else cr)) \<and>
   (isStructuralOffset reg d offset u = Inr False \<and>
    getRelativeStructuralOffset reg d offset (-1) u = Inr cl \<and>
    getRelativeStructuralOffset reg d offset 1 u = Inr cr \<longrightarrow>
      getNearestStructuralOffset reg d offset None u =
        Inr (if offset - cl < cr - offset then cl else cr) \<and>
      getNearestStructuralOffset reg d offset (Some 0) u =
        Inr (if offset - cl < cr - offset then cl else cr)) \<and>
   (offset - l = r - offset \<and> clearWay reg d offset False l \<and> clearWay reg d offset True r \<longrightarrow>
      (isContentOffset reg d l = Inr True \<and> isContentOffset reg d r = Inr True \<and>
       (\<forall>j. l < j \<and> j < r \<longrightarrow> isContentOffset reg d j = Inr False) \<longrightarrow>
         getRelativeContentOffset reg d offset (-1) = Inr l \<and>
         getRelativeContentOffset reg d offset 1 = Inr r \<and>
         getNearestContentOffset reg d offset None = Inr r) \<and>
      (isStructuralOffset reg d l u = Inr True \<and> isStructuralOffset reg d r u = Inr True \<and>
       (\<forall>j. l < j \<and> j < r \<longrightarrow> isStructuralOffset reg d j u = Inr False) \<longrightarrow>
         getRelativeStructuralOffset reg d offset (-1) u = Inr l \<and>
         getRelativeStructuralOffset reg d offset 1 u = Inr r \<and>
         getNearestStructuralOffset reg d offset None u = Inr r \<and>
         getNearestStructuralOffset reg d offset (Some 0) u = Inr r)) \<and>
   (clearWay reg d offset False l \<and> blockedWay reg d offset e \<longrightarrow>
      (isContentOffset reg d l = Inr True \<and>
       (\<forall>j. l < j \<and> j \<le> e \<longrightarrow> isContentOffset reg d j = Inr False) \<longrightarrow>
         getRelativeContentOffset reg d offset (-1) = Inr l \<and>
         getRelativeContentOffset reg d offset 1 = Inr l \<and>
         getNearestContentOffset reg d offset None = Inr l) \<and>
      (isStructuralOffset reg d l u = Inr True \<and>
       (\<forall>j. l < j \<and> j \<le> e \<longrightarrow> isStructuralOffset reg d j u = Inr False) \<longrightarrow>
         getRelativeStructuralOffset reg d offset (-1) u = Inr l \<and>
         getRelativeStructuralOffset reg d offset 1 u = Inr l \<and>
         getNearestStructuralOffset reg d offset None u = Inr l \<and>
         getNearestStructuralOffset reg d offset (Some 0) u = Inr l))"
proof -
  have candidates: "getNearestContentOffset reg d offset None =
        Inr (if offset - cl < cr - offset then cl else cr)"
    if "isContentOffset reg d offset = Inr False"
       "getRelativeContentOffset reg d offset (-1) = Inr cl"
       "getRelativeContentOffset reg d offset 1 = Inr cr"
    using that by (simp add: getNearestContentOffset_def)
  have scandidates: "getNearestStructuralOffset reg d offset None u =
        Inr (if offset - cl < cr - offset then cl else cr) \<and>
      getNearestStructuralOffset reg d offset (Some 0) u =
        Inr (if offset - cl < cr - offset then cl else cr)"
    if "isStructuralOffset reg d offset u = Inr False"
       "getRelativeStructuralOffset reg d offset (-1) u = Inr cl"
       "getRelativeStructuralOffset reg d offset 1 u = Inr cr"
    using that by (simp add: getNearestStructuralOffset_def)
  have search: "getRelativeOffset reg d offset (-1) callback = Inr l \<and>
                getRelativeOffset reg d offset 1 callback = Inr r"
    if way: "clearWay reg d offset False l" "clearWay reg d offset True r"
      and valid: "callback l = Inr True" "callback r = Inr True"
        "\<forall>j. l < j \<and> j < r \<longrightarrow> callback j = Inr False"
    for callback
  proof -
    have range: "0 \<le> l" "l < offset" "offset < r" "r \<le> getLength d"
      using way by (simp_all add: clearWay_def)
    have st: "0 < offset" "offset < getLength d" using range by auto
    have here: "callback offset = Inr False" using valid(3) range by simp
    have left: "getRelativeOffset reg d offset (-1) callback = Inr l"
      by (rule clearWay_search[OF way(1) valid(1) here _ st]) (use valid(3) range in auto)
    have right: "getRelativeOffset reg d offset 1 callback = Inr r"
      by (rule clearWay_search[OF way(2) valid(2) here _ st]) (use valid(3) range in auto)
    show ?thesis using left right by simp
  qed
  have content: "getRelativeContentOffset reg d offset (-1) = Inr l \<and>
         getRelativeContentOffset reg d offset 1 = Inr r \<and>
         getNearestContentOffset reg d offset None = Inr r"
    if tie: "offset - l = r - offset"
      and way: "clearWay reg d offset False l" "clearWay reg d offset True r"
      and valid: "isContentOffset reg d l = Inr True" "isContentOffset reg d r = Inr True"
        "\<forall>j. l < j \<and> j < r \<longrightarrow> isContentOffset reg d j = Inr False"
  proof -
    have range: "l < offset" "offset < r" using way by (simp_all add: clearWay_def)
    have here: "isContentOffset reg d offset = Inr False" using valid(3) range by simp
    from search[OF way, of "isContentOffset reg d", OF valid]
    show ?thesis
      using here tie by (simp add: getRelativeContentOffset_def getNearestContentOffset_def)
  qed
  have structural: "getRelativeStructuralOffset reg d offset (-1) u = Inr l \<and>
         getRelativeStructuralOffset reg d offset 1 u = Inr r \<and>
         getNearestStructuralOffset reg d offset None u = Inr r \<and>
         getNearestStructuralOffset reg d offset (Some 0) u = Inr r"
    if tie: "offset - l = r - offset"
      and way: "clearWay reg d offset False l" "clearWay reg d offset True r"
      and valid: "isStructuralOffset reg d l u = Inr True" "isStructuralOffset reg d r u = Inr True"
        "\<forall>j. l < j \<and> j < r \<longrightarrow> isStructuralOffset reg d j u = Inr False"
  proof -
    have range: "l < offset" "offset < r" using way by (simp_all add: clearWay_def)
    have here: "isStructuralOffset reg d offset u = Inr False" using valid(3) range by simp
    from search[OF way, of "\<lambda>j. isStructuralOffset reg d j u", OF valid]
    show ?thesis
      using here tie by (simp add: getRelativeStructuralOffset_def getNearestStructuralOffset_def)
  qed
  have turned: "getRelativeOffset reg d offset (-1) callback = Inr l \<and>
                getRelativeOffset reg d offset 1 callback = Inr l \<and> callback offset = Inr False"
    if way: "clearWay reg d offset False l" "blockedWay reg d offset e"
      and valid: "callback l = Inr True" "\<forall>j. l < j \<and> j \<le> e \<longrightarrow> callback j = Inr False"
    for callback
  proof -
    have range: "0 \<le> l" "l < offset" "offset < e" "e \<le> getLength d"
      using way by (simp_all add: clearWay_def blockedWay_def)
    have st: "0 < offset" "offset < getLength d" using range by auto
    have here: "callback offset = Inr False" using valid(2) range by simp
    have left: "getRelativeOffset reg d offset (-1) callback = Inr l"
      by (rule clearWay_search[OF way(1) valid(1) here _ st]) (use valid(2) range in auto)
    have right: "getRelativeOffset reg d offset 1 callback = Inr l"
      by (rule blockedWay_search[OF way valid])
    show ?thesis using left right here by simp
  qed
  have bcontent: "getRelativeContentOffset reg d offset (-1) = Inr l \<and>
         getRelativeContentOffset reg d offset 1 = Inr l \<and>
         getNearestContentOffset reg d offset None = Inr l"
    if way: "clearWay reg d offset False l" "blockedWay reg d offset e"
      and valid: "isContentOffset reg d l = Inr True"
        "\<forall>j. l < j \<and> j \<le> e \<longrightarrow> isContentOffset reg d j = Inr False"
    using turned[OF way, of "isContentOffset reg d", OF valid]
    by (simp add: getRelativeContentOffset_def getNearestContentOffset_def)
  have bstructural: "getRelativeStructuralOffset reg d offset (-1) u = Inr l \<and>
         getRelativeStructuralOffset reg d offset 1 u = Inr l \<and>
         getNearestStructuralOffset reg d offset None u = Inr l \<and>
         getNearestStructuralOffset reg d offset (Some 0) u = Inr l"
    if way: "clearWay reg d offset False l" "blockedWay reg d offset e"
      and valid: "isStructuralOffset reg d l u = Inr True"
        "\<forall>j. l < j \<and> j \<le> e \<longrightarrow> isStructuralOffset reg d j u = Inr False"
    using turned[OF way, of "\<lambda>j. isStructuralOffset reg d j u", OF valid]
    by (simp add: getRelativeStructuralOffset_def getNearestStructuralOffset_def)
  show ?thesis
    using candidates scandidates content structural bcontent bstructural by blast
qed

theorem getNearestOffset_tie_prefers_right_witness:
  "clearWay exampleRegistry twoParagraphsDocument 3 False 2 \<and>
   clearWay exampleRegistry twoParagraphsDocument 3 True 4 \<and> (3::int) - 2 = 4 - 3 \<and>
   getNearestContentOffset exampleRegistry twoParagraphsDocument 3 None = Inr 4 \<and>
   clearWay exampleRegistry alienFirstParagraph 3 False 0 \<and>
   clearWay exampleRegistry alienFirstParagraph 3 True 6 \<and> (3::int) - 0 = 6 - 3 \<and>
   getNearestStructuralOffset exampleRegistry alienFirstParagraph 3 None False = Inr 6 \<and>
   getNearestStructuralOffset exampleRegistry alienFirstParagraph 3 (Some 0) False = Inr 6 \<and>
   clearWay exampleRegistry listAroundInternalList 4 False 2 \<and>
   blockedWay exampleRegistry listAroundInternalList 4 5 \<and>
   isContentOffset exampleRegistry listAroundInternalList 6 = Inr True \<and>
   getNearestContentOffset exampleRegistry listAroundInternalList 4 None = Inr 2 \<and>
   isStructuralOffset exampleRegistry abParagraph 2 False = Inr False \<and>
   getRelativeStructuralOffset exampleRegistry abParagraph 2 (-1) False = Inr 0 \<and>
   getRelativeStructuralOffset exampleRegistry abParagraph 2 1 False = Inr 4 \<and>
   getNearestStructuralOffset exampleRegistry abParagraph 2 None False = Inr 4"
proof -
  have cl: "clearWay exampleRegistry twoParagraphsDocument 3 False 2"
    by (simp add: way_eval twoParagraphsDocument_def offset_eval)
  have cr: "clearWay exampleRegistry twoParagraphsDocument 3 True 4"
    by (simp add: way_eval twoParagraphsDocument_def offset_eval)
  have c2: "isContentOffset exampleRegistry twoParagraphsDocument 2 = Inr True"
    by (simp add: twoParagraphsDocument_def offset_eval)
  have c4: "isContentOffset exampleRegistry twoParagraphsDocument 4 = Inr True"
    by (simp add: twoParagraphsDocument_def offset_eval)
  have c3: "isContentOffset exampleRegistry twoParagraphsDocument 3 = Inr False"
    by (simp add: twoParagraphsDocument_def offset_eval)
  have cbetween: "\<forall>j. 2 < j \<and> j < 4 \<longrightarrow> isContentOffset exampleRegistry twoParagraphsDocument j = Inr False"
  proof (intro allI impI)
    fix j :: int assume "2 < j \<and> j < 4"
    then have "j = 3" by simp
    then show "isContentOffset exampleRegistry twoParagraphsDocument j = Inr False" using c3 by simp
  qed
  have content: "getNearestContentOffset exampleRegistry twoParagraphsDocument 3 None = Inr 4"
    using getNearestOffset_tie_prefers_right
            [of exampleRegistry twoParagraphsDocument 3 undefined undefined undefined 2 4 undefined]
          cl cr c2 c4 cbetween
    by simp
  have sl: "clearWay exampleRegistry alienFirstParagraph 3 False 0"
    by (simp add: way_eval alienFirstParagraph_def offset_eval)
  have sr: "clearWay exampleRegistry alienFirstParagraph 3 True 6"
    by (simp add: way_eval alienFirstParagraph_def offset_eval)
  have s0: "isStructuralOffset exampleRegistry alienFirstParagraph 0 False = Inr True"
    by (simp add: alienFirstParagraph_def offset_eval)
  have s6: "isStructuralOffset exampleRegistry alienFirstParagraph 6 False = Inr True"
    by (simp add: alienFirstParagraph_def offset_eval)
  have s1: "isStructuralOffset exampleRegistry alienFirstParagraph 1 False = Inr False"
    by (simp add: alienFirstParagraph_def offset_eval)
  have s2: "isStructuralOffset exampleRegistry alienFirstParagraph 2 False = Inr False"
    by (simp add: alienFirstParagraph_def offset_eval)
  have s3: "isStructuralOffset exampleRegistry alienFirstParagraph 3 False = Inr False"
    by (simp add: alienFirstParagraph_def offset_eval)
  have s4: "isStructuralOffset exampleRegistry alienFirstParagraph 4 False = Inr False"
    by (simp add: alienFirstParagraph_def offset_eval)
  have s5: "isStructuralOffset exampleRegistry alienFirstParagraph 5 False = Inr False"
    by (simp add: alienFirstParagraph_def offset_eval)
  have sbetween: "\<forall>j. 0 < j \<and> j < 6 \<longrightarrow> isStructuralOffset exampleRegistry alienFirstParagraph j False = Inr False"
  proof (intro allI impI)
    fix j :: int assume "0 < j \<and> j < 6"
    then have "j = 1 \<or> j = 2 \<or> j = 3 \<or> j = 4 \<or> j = 5" by auto
    then show "isStructuralOffset exampleRegistry alienFirstParagraph j False = Inr False"
      using s1 s2 s3 s4 s5 by auto
  qed
  have structural: "getNearestStructuralOffset exampleRegistry alienFirstParagraph 3 None False = Inr 6 \<and>
      getNearestStructuralOffset exampleRegistry alienFirstParagraph 3 (Some 0) False = Inr 6"
    using getNearestOffset_tie_prefers_right
            [of exampleRegistry alienFirstParagraph 3 undefined undefined False 0 6 undefined]
          sl sr s0 s6 sbetween
    by simp
  have bl: "clearWay exampleRegistry listAroundInternalList 4 False 2"
    by (simp add: way_eval listAroundInternalList_def offset_eval)
  have bb: "blockedWay exampleRegistry listAroundInternalList 4 5"
    by (simp add: way_eval listAroundInternalList_def offset_eval)
  have b2: "isContentOffset exampleRegistry listAroundInternalList 2 = Inr True"
    by (simp add: listAroundInternalList_def offset_eval)
  have b6: "isContentOffset exampleRegistry listAroundInternalList 6 = Inr True"
    by (simp add: listAroundInternalList_def offset_eval)
  have b3: "isContentOffset exampleRegistry listAroundInternalList 3 = Inr False"
    by (simp add: listAroundInternalList_def offset_eval)
  have b4: "isContentOffset exampleRegistry listAroundInternalList 4 = Inr False"
    by (simp add: listAroundInternalList_def offset_eval)
  have b5: "isContentOffset exampleRegistry listAroundInternalList 5 = Inr False"
    by (simp add: listAroundInternalList_def offset_eval)
  have bbetween: "\<forall>j. 2 < j \<and> j \<le> 5 \<longrightarrow> isContentOffset exampleRegistry listAroundInternalList j = Inr False"
  proof (intro allI impI)
    fix j :: int assume "2 < j \<and> j \<le> 5"
    then have "j = 3 \<or> j = 4 \<or> j = 5" by auto
    then show "isContentOffset exampleRegistry listAroundInternalList j = Inr False"
      using b3 b4 b5 by auto
  qed
  have blocked: "getNearestContentOffset exampleRegistry listAroundInternalList 4 None = Inr 2"
    using getNearestOffset_tie_prefers_right
            [of exampleRegistry listAroundInternalList 4 undefined undefined undefined 2 undefined 5]
          bl bb b2 bbetween
    by simp
  have a2: "isStructuralOffset exampleRegistry abParagraph 2 False = Inr False"
    by (simp add: abParagraph_def offset_eval)
  have al: "getRelativeStructuralOffset exampleRegistry abParagraph 2 (-1) False = Inr 0"
    by (simp add: abParagraph_def offset_eval)
  have ar: "getRelativeStructuralOffset exampleRegistry abParagraph 2 1 False = Inr 4"
    by (simp add: abParagraph_def offset_eval)
  have candidates: "getNearestStructuralOffset exampleRegistry abParagraph 2 None False = Inr 4"
    using getNearestOffset_tie_prefers_right
            [of exampleRegistry abParagraph 2 0 4 False undefined undefined undefined]
          a2 al ar
    by simp
  show ?thesis
    using cl cr content sl sr structural bl bb b6 blocked a2 al ar candidates by simp
qed

text \<open>
  The claim as stated fails: between two paragraphs, and in the middle of a paragraph of
  two characters, the candidates to the left and to the right are at the same distance,
  and the right one is returned.
\<close>

theorem getNearestOffset_tie_counterexample:
  "isContentOffset exampleRegistry twoParagraphs 3 = Inr False \<and>
   getRelativeContentOffset exampleRegistry twoParagraphs 3 (-1) = Inr 2 \<and>
   getRelativeContentOffset exampleRegistry twoParagraphs 3 1 = Inr 4 \<and>
   getNearestContentOffset exampleRegistry twoParagraphs 3 None = Inr 4 \<and>
   isStructuralOffset exampleRegistry abParagraph 2 False = Inr False \<and>
   getRelativeStructuralOffset exampleRegistry abParagraph 2 (-1) False = Inr 0 \<and>
   getRelativeStructuralOffset exampleRegistry abParagraph 2 1 False = Inr 4 \<and>
   getNearestStructuralOffset exampleRegistry abParagraph 2 None False = Inr 4"
  by (simp add: twoParagraphs_def abParagraph_def offset_eval)

subsection \<open>Annotation indexes at an offset\<close>

lemma getData_in_set:
  "getData d j \<noteq> Undefined \<Longrightarrow> getData d j \<in> set d"
  by (auto simp: getData_def split: if_splits)

lemma rewind_total:
  assumes "registeredData reg d"
  shows "\<exists>b. andE (Inr (\<not> ignoreClose))
               (andE (Inr (isCloseElementData d offset))
                     (notE (bindE (getType d offset)
                              (\<lambda>t. canNodeHaveChildren reg (js_string t))))) = Inr b"
proof (cases "\<not> ignoreClose \<and> isCloseElementData d offset")
  case True
  then have el: "isElementData d offset" and range: "0 \<le> offset" "offset < getLength d"
    by (auto simp: isCloseElementData_def isElementData_def Let_def getData_def getLength_def
        split: if_splits)
  from getType_registered[OF assms range] el
  obtain s where "getType d offset = Inr (Some s)" "reg s \<noteq> None" by auto
  then show ?thesis using True
    by (auto simp: andE_simps notE_def bindE_def canNodeHaveChildren_def js_string_def)
next
  case False
  then show ?thesis by (auto simp: andE_def)
qed

lemma getRelativeContentOffset_total:
  assumes r: "registeredData reg d" and st: "0 \<le> offset" "offset \<le> getLength d"
  shows "\<exists>r. getRelativeContentOffset reg d offset distance = Inr r"
proof -
  define p where "p j = (isContentOffset reg d j = Inr True)" for j
  have cb: "isContentOffset reg d = (\<lambda>j. Inr (p j))"
  proof
    fix j show "isContentOffset reg d j = Inr (p j)"
      using isContentOffset_total[OF r, of j] by (auto simp: p_def)
  qed
  show ?thesis
    using getRelativeOffset_safe[OF r st, of distance p]
    unfolding getRelativeContentOffset_def cb by blast
qed

lemma annotationsArrayFromOffset_total:
  assumes r: "registeredData reg d" and st: "0 \<le> offset" "offset \<le> getLength d"
  shows "\<exists>a. annotationsArrayFromOffset reg d offset ignoreClose = Inr a \<and>
             (\<forall>x. a = Some x \<longrightarrow> (\<exists>it \<in> set d. x \<in> set (itemRefs it)))"
proof -
  obtain b where b: "andE (Inr (\<not> ignoreClose))
               (andE (Inr (isCloseElementData d offset))
                     (notE (bindE (getType d offset)
                              (\<lambda>t. canNodeHaveChildren reg (js_string t))))) = Inr b"
    using rewind_total[OF r] by blast
  obtain offset' where o: "(if b then getRelativeContentOffset reg d offset (-1) else Inr offset) = Inr offset'"
    using getRelativeContentOffset_total[OF r st, of "-1"] by (cases b) auto
  have unf: "annotationsArrayFromOffset reg d offset ignoreClose =
      (case getData d offset' of
         Undefined \<Rightarrow> Inr None
       | Chr _ \<Rightarrow> Inr None
       | Elem e \<Rightarrow> Inr (annotations e)
       | AnnChr _ a \<Rightarrow> Inr (Some a))"
    unfolding annotationsArrayFromOffset_def using st
    by (simp only: b o sum.case) simp
  show ?thesis
  proof (cases "getData d offset'")
    case Undefined
    then show ?thesis unfolding unf by simp
  next
    case (Chr c)
    then show ?thesis unfolding unf by simp
  next
    case (AnnChr c a)
    then have "AnnChr c a \<in> set d" using getData_in_set[of d offset'] by simp
    then show ?thesis unfolding unf AnnChr by force
  next
    case (Elem e)
    then have "Elem e \<in> set d" using getData_in_set[of d offset'] by simp
    then show ?thesis unfolding unf Elem by force
  qed
qed

lemma annotationsArrayFromOffset_bounds:
  "offset < 0 \<or> offset > getLength d \<Longrightarrow>
   annotationsArrayFromOffset reg d offset ignoreClose = Inl (OffsetOutOfBounds offset)"
  by (simp add: annotationsArrayFromOffset_def)

lemma annotationsArrayFromOffset_end:
  "annotationsArrayFromOffset reg d (getLength d) ignoreClose = Inr None"
proof -
  have "getData d (getLength d) = Undefined" by (simp add: getData_def getLength_def)
  then have "\<not> isCloseElementData d (getLength d)" by (simp add: isCloseElementData_def)
  then show ?thesis
    using \<open>getData d (getLength d) = Undefined\<close>
    by (simp add: annotationsArrayFromOffset_def andE_def getLength_def)
qed

lemma deref_other:
  assumes "validRefs h d"
  shows "map (derefItem (h @ [ys])) d = map (derefItem h) d"
proof (rule map_cong[OF refl])
  fix it assume "it \<in> set d"
  then have v: "list_all (\<lambda>r. r < length h) (itemRefs it)"
    using assms by (auto simp: validRefs_def list_all_iff)
  show "derefItem (h @ [ys]) it = derefItem h it"
    using v by (cases it) (auto simp: nth_append split: option.splits)
qed

lemma annotationsArray_refs:
  assumes "annotationsArrayFromOffset reg d offset ignoreClose = Inr (Some x)"
  shows "\<exists>it \<in> set d. x \<in> set (itemRefs it)"
proof -
  from assms obtain offset' where o: "(case getData d offset' of
                    Undefined \<Rightarrow> Inr None
                  | Chr _ \<Rightarrow> Inr None
                  | Elem e \<Rightarrow> Inr (annotations e)
                  | AnnChr _ a \<Rightarrow> Inr (Some a)) = (Inr (Some x) :: error + 'a option)"
    unfolding annotationsArrayFromOffset_def
    by (auto split: if_splits sum.splits)
  show ?thesis
  proof (cases "getData d offset'")
    case Undefined
    then show ?thesis using o by simp
  next
    case (Chr c)
    then show ?thesis using o by simp
  next
    case (AnnChr c a)
    then have "AnnChr c a \<in> set d" using getData_in_set[of d offset'] by simp
    then show ?thesis using o AnnChr by force
  next
    case (Elem e)
    then have "Elem e \<in> set d" using getData_in_set[of d offset'] by simp
    then show ?thesis using o Elem by force
  qed
qed

lemma annotationsArray_no_rewind:
  assumes st: "0 \<le> offset" "offset \<le> getLength d"
    and safe: "ignoreClose \<or> \<not> isCloseElementData d offset \<or>
               (\<exists>t. isClosingOf (getData d offset) t \<and> canNodeHaveChildren reg t = Inr True)"
  shows "\<exists>a. annotationsArrayFromOffset reg d offset ignoreClose = Inr a"
proof -
  have b: "andE (Inr (\<not> ignoreClose))
               (andE (Inr (isCloseElementData d offset))
                     (notE (bindE (getType d offset)
                              (\<lambda>t. canNodeHaveChildren reg (js_string t))))) = Inr False"
  proof (cases "ignoreClose \<or> \<not> isCloseElementData d offset")
    case True
    then show ?thesis by (auto simp: andE_def)
  next
    case False
    then obtain t where t: "isClosingOf (getData d offset) t" "canNodeHaveChildren reg t = Inr True"
      using safe by blast
    have "getType d offset = Inr (Some t)"
      using t(1) False
      by (cases "getData d offset")
         (auto simp: getType_def isClosingOf_def isCloseElementData_def Let_def js_string_def slice1_def)
    then show ?thesis using t(2) by (simp add: andE_def notE_def bindE_def js_string_def)
  qed
  have "annotationsArrayFromOffset reg d offset ignoreClose =
      (case getData d offset of
         Undefined \<Rightarrow> Inr None
       | Chr _ \<Rightarrow> Inr None
       | Elem e \<Rightarrow> Inr (annotations e)
       | AnnChr _ a \<Rightarrow> Inr (Some a))"
    unfolding annotationsArrayFromOffset_def using st
    by (simp only: b sum.case) simp
  then show ?thesis by (cases "getData d offset") auto
qed

lemma annotationsArray_rewind:
  assumes st: "0 \<le> offset" "offset \<le> getLength d"
    and c: "\<not> ignoreClose" "isClosingOf (getData d offset) t" "canNodeHaveChildren reg t = Inr False"
  shows "annotationsArrayFromOffset reg d offset ignoreClose =
     (case getRelativeContentOffset reg d offset (-1) of
        Inl e \<Rightarrow> Inl e
      | Inr offset' \<Rightarrow>
          (case getData d offset' of
             Undefined \<Rightarrow> Inr None
           | Chr _ \<Rightarrow> Inr None
           | Elem e \<Rightarrow> Inr (annotations e)
           | AnnChr _ a \<Rightarrow> Inr (Some a)))"
proof -
  have cl: "isCloseElementData d offset"
    using c(2) by (cases "getData d offset") (auto simp: isClosingOf_def isCloseElementData_def isCloseName_def js_string_def)
  have "getType d offset = Inr (Some t)"
    using c(2) cl
    by (cases "getData d offset")
       (auto simp: getType_def isClosingOf_def Let_def js_string_def slice1_def)
  then have "andE (Inr (\<not> ignoreClose))
               (andE (Inr (isCloseElementData d offset))
                     (notE (bindE (getType d offset)
                              (\<lambda>t. canNodeHaveChildren reg (js_string t))))) = Inr True"
    using c(1,3) cl by (simp add: andE_def notE_def bindE_def js_string_def)
  then show ?thesis
    unfolding annotationsArrayFromOffset_def using st by simp
qed

lemma annotationsArray_unknown:
  assumes st: "0 \<le> offset" "offset \<le> getLength d"
    and c: "\<not> ignoreClose" "isClosingOf (getData d offset) t" "reg t = None"
  shows "annotationsArrayFromOffset reg d offset ignoreClose = Inl (UnknownNodeType t)"
proof -
  have cl: "isCloseElementData d offset"
    using c(2) by (cases "getData d offset") (auto simp: isClosingOf_def isCloseElementData_def isCloseName_def js_string_def)
  have "getType d offset = Inr (Some t)"
    using c(2) cl
    by (cases "getData d offset")
       (auto simp: getType_def isClosingOf_def Let_def js_string_def slice1_def)
  then have "andE (Inr (\<not> ignoreClose))
               (andE (Inr (isCloseElementData d offset))
                     (notE (bindE (getType d offset)
                              (\<lambda>t. canNodeHaveChildren reg (js_string t))))) = Inl (UnknownNodeType t)"
    using c(1,3) cl by (simp add: andE_def notE_def bindE_def js_string_def canNodeHaveChildren_def)
  then show ?thesis
    unfolding annotationsArrayFromOffset_def using st by simp
qed

lemma annotationsArray_throws:
  assumes st: "0 \<le> offset" "offset \<le> getLength d"
  shows "(\<exists>e. annotationsArrayFromOffset reg d offset ignoreClose = Inl e) \<longleftrightarrow>
         (\<not> ignoreClose \<and>
          (\<exists>t. isClosingOf (getData d offset) t \<and>
               (reg t = None \<or>
                canNodeHaveChildren reg t = Inr False \<and>
                (\<exists>e. getRelativeContentOffset reg d offset (-1) = Inl e))))"
proof (cases "ignoreClose \<or> \<not> isCloseElementData d offset")
  case True
  have closing: "isCloseElementData d offset" if "isClosingOf (getData d offset) t" for t
    using that by (cases "getData d offset") (auto simp: isClosingOf_def isCloseElementData_def isCloseName_def js_string_def)
  obtain a where "annotationsArrayFromOffset reg d offset ignoreClose = Inr a"
    using annotationsArray_no_rewind[OF st, of ignoreClose reg] True by blast
  then show ?thesis using True closing by auto
next
  case False
  then obtain e where item: "getData d offset = Elem e" and cn: "isCloseName (type e)"
    by (cases "getData d offset") (auto simp: isCloseElementData_def Let_def js_string_def)
  define t where "t = slice1 (type e)"
  have t: "isClosingOf (getData d offset) t"
    using item cn by (cases "type e") (auto simp: isClosingOf_def t_def slice1_def isCloseName_def)
  have uniq: "t' = t" if "isClosingOf (getData d offset) t'" for t'
    using that t by (simp add: isClosingOf_def)
  show ?thesis
  proof (cases "reg t")
    case None
    have "annotationsArrayFromOffset reg d offset ignoreClose = Inl (UnknownNodeType t)"
      by (rule annotationsArray_unknown[where reg = reg and t = t, OF st _ t None]) (use False in simp)
    then show ?thesis using False t None by auto
  next
    case (Some nst)
    show ?thesis
    proof (cases "canNodeHaveChildren reg t = Inr True")
      case True
      obtain a where "annotationsArrayFromOffset reg d offset ignoreClose = Inr a"
        using annotationsArray_no_rewind[OF st, of ignoreClose reg] t True by blast
      then show ?thesis using True Some uniq by auto
    next
      case nb: False
      then have leaf: "canNodeHaveChildren reg t = Inr False"
        using Some by (auto simp: canNodeHaveChildren_def Let_def)
      have ni: "\<not> ignoreClose" using False by simp
      note rw = annotationsArray_rewind[where reg = reg and t = t, OF st ni t leaf]
      show ?thesis
      proof (cases "getRelativeContentOffset reg d offset (-1)")
        case (Inl err)
        then show ?thesis unfolding rw using ni t leaf by auto
      next
        case (Inr o')
        then have "\<exists>a. annotationsArrayFromOffset reg d offset ignoreClose = Inr a"
          unfolding rw by (cases "getData d o'") auto
        then show ?thesis using Inr Some uniq by auto
      qed
    qed
  qed
qed

text \<open>
  C10, as the code has it. \<open>getAnnotationIndexesFromOffset\<close> throws the out-of-bounds error
  when the offset is below 0 or above the length of the data. At an offset between them it
  throws exactly when \<open>ignoreClose\<close> is unset, the item at the offset is a closing marker,
  and either its type is not registered (it then raises the unknown-type error), or its
  type cannot have children and the search for the content offset before it throws. So it
  returns at every offset between 0 and the length when the data is registered, and at
  the length it returns an empty list. In the model where the data holds addresses of
  arrays, all of them in the store of arrays, every call that returns gives the address
  of a new array, one that the store of arrays did not hold before the call: the arrays
  that were there are unchanged, and whatever is written into the new array, the linear
  data reads as before. The same bounds hold in the model where an array is the list of
  its indexes.
\<close>

theorem getAnnotationIndexesFromOffset_bounds_and_copy:
  assumes "validRefs h d"
  shows "(offset < 0 \<or> offset > getLength d \<longrightarrow>
            getAnnotationIndexesFromOffset_ref reg d h offset ignoreClose = Inl (OffsetOutOfBounds offset)) \<and>
         (0 \<le> offset \<and> offset \<le> getLength d \<longrightarrow>
            ((\<exists>e. getAnnotationIndexesFromOffset_ref reg d h offset ignoreClose = Inl e) \<longleftrightarrow>
             (\<not> ignoreClose \<and>
              (\<exists>t. isClosingOf (getData d offset) t \<and>
                   (reg t = None \<or>
                    canNodeHaveChildren reg t = Inr False \<and>
                    (\<exists>e. getRelativeContentOffset reg d offset (-1) = Inl e)))))) \<and>
         (0 \<le> offset \<and> offset \<le> getLength d \<and> \<not> ignoreClose \<and>
          isClosingOf (getData d offset) t \<and> reg t = None \<longrightarrow>
            getAnnotationIndexesFromOffset_ref reg d h offset ignoreClose = Inl (UnknownNodeType t)) \<and>
         (0 \<le> offset \<and> offset \<le> getLength d \<and> registeredData reg d \<longrightarrow>
            (\<exists>r h'. getAnnotationIndexesFromOffset_ref reg d h offset ignoreClose = Inr (r, h'))) \<and>
         getAnnotationIndexesFromOffset_ref reg d h (getLength d) ignoreClose = Inr (length h, h @ [ [] ]) \<and>
         (\<forall>r h'. getAnnotationIndexesFromOffset_ref reg d h offset ignoreClose = Inr (r, h') \<longrightarrow>
            r = length h \<and> length h' = Suc (length h) \<and> take (length h) h' = h \<and>
            (\<forall>xs. map (derefItem (h'[r := xs])) d = map (derefItem h) d)) \<and>
         (offset < 0 \<or> offset > getLength dv \<longrightarrow>
            getAnnotationIndexesFromOffset reg dv offset ignoreClose = Inl (OffsetOutOfBounds offset)) \<and>
         (0 \<le> offset \<and> offset \<le> getLength dv \<longrightarrow>
            ((\<exists>e. getAnnotationIndexesFromOffset reg dv offset ignoreClose = Inl e) \<longleftrightarrow>
             (\<not> ignoreClose \<and>
              (\<exists>t. isClosingOf (getData dv offset) t \<and>
                   (reg t = None \<or>
                    canNodeHaveChildren reg t = Inr False \<and>
                    (\<exists>e. getRelativeContentOffset reg dv offset (-1) = Inl e)))))) \<and>
         (0 \<le> offset \<and> offset \<le> getLength dv \<and> \<not> ignoreClose \<and>
          isClosingOf (getData dv offset) t \<and> reg t = None \<longrightarrow>
            getAnnotationIndexesFromOffset reg dv offset ignoreClose = Inl (UnknownNodeType t)) \<and>
         (0 \<le> offset \<and> offset \<le> getLength dv \<and> registeredData reg dv \<longrightarrow>
            (\<exists>a. getAnnotationIndexesFromOffset reg dv offset ignoreClose = Inr a)) \<and>
         getAnnotationIndexesFromOffset reg dv (getLength dv) ignoreClose = Inr []"
proof -
  have fresh: "r = length h \<and> length h' = Suc (length h) \<and> take (length h) h' = h \<and>
            (\<forall>xs. map (derefItem (h'[r := xs])) d = map (derefItem h) d)"
    if run: "getAnnotationIndexesFromOffset_ref reg d h offset ignoreClose = Inr (r, h')" for r h'
  proof -
    have "\<exists>ys. r = length h \<and> h' = h @ [ys]"
      using run
      by (auto simp: getAnnotationIndexesFromOffset_ref_def newArray_def
          split: sum.splits option.splits if_splits)
    then obtain ys where "r = length h" "h' = h @ [ys]" by blast
    then show ?thesis using deref_other[OF assms] by simp
  qed
  have out: "getAnnotationIndexesFromOffset_ref reg d h offset ignoreClose = Inl (OffsetOutOfBounds offset)"
    if "offset < 0 \<or> offset > getLength d"
    using annotationsArrayFromOffset_bounds[OF that, of reg ignoreClose]
    by (simp add: getAnnotationIndexesFromOffset_ref_def)
  have same: "(\<exists>e. getAnnotationIndexesFromOffset_ref reg d h offset ignoreClose = Inl e) \<longleftrightarrow>
              (\<exists>e. annotationsArrayFromOffset reg d offset ignoreClose = Inl e)"
  proof (cases "annotationsArrayFromOffset reg d offset ignoreClose")
    case (Inl e)
    then show ?thesis by (simp add: getAnnotationIndexesFromOffset_ref_def)
  next
    case (Inr a)
    have "\<forall>x. a = Some x \<longrightarrow> x < length h"
    proof (intro allI impI)
      fix x assume "a = Some x"
      then obtain it where "it \<in> set d" "x \<in> set (itemRefs it)"
        using annotationsArray_refs[of reg d offset ignoreClose x] Inr by auto
      then show "x < length h" using assms by (auto simp: validRefs_def list_all_iff)
    qed
    then show ?thesis
      by (auto simp: getAnnotationIndexesFromOffset_ref_def Inr newArray_def split: option.splits)
  qed
  have throws: "(\<exists>e. getAnnotationIndexesFromOffset_ref reg d h offset ignoreClose = Inl e) \<longleftrightarrow>
             (\<not> ignoreClose \<and>
              (\<exists>t. isClosingOf (getData d offset) t \<and>
                   (reg t = None \<or>
                    canNodeHaveChildren reg t = Inr False \<and>
                    (\<exists>e. getRelativeContentOffset reg d offset (-1) = Inl e))))"
    if "0 \<le> offset" "offset \<le> getLength d"
    unfolding same by (rule annotationsArray_throws[OF that])
  have returns: "\<exists>r h'. getAnnotationIndexesFromOffset_ref reg d h offset ignoreClose = Inr (r, h')"
    if st: "0 \<le> offset" "offset \<le> getLength d" and r: "registeredData reg d"
  proof -
    have "\<exists>a. annotationsArrayFromOffset reg d offset ignoreClose = Inr a"
      using annotationsArrayFromOffset_total[OF r st] by blast
    then have "\<not> (\<exists>e. getAnnotationIndexesFromOffset_ref reg d h offset ignoreClose = Inl e)"
      unfolding same by auto
    then show ?thesis
      by (cases "getAnnotationIndexesFromOffset_ref reg d h offset ignoreClose") auto
  qed
  have unknown: "getAnnotationIndexesFromOffset_ref reg d h offset ignoreClose = Inl (UnknownNodeType t)"
    if "0 \<le> offset" "offset \<le> getLength d" "\<not> ignoreClose"
       "isClosingOf (getData d offset) t" "reg t = None"
    using annotationsArray_unknown[where reg = reg and t = t, OF that]
    by (simp add: getAnnotationIndexesFromOffset_ref_def)
  have atEnd: "getAnnotationIndexesFromOffset_ref reg d h (getLength d) ignoreClose = Inr (length h, h @ [ [] ])"
    by (simp add: getAnnotationIndexesFromOffset_ref_def annotationsArrayFromOffset_end newArray_def)
  have vout: "getAnnotationIndexesFromOffset reg dv offset ignoreClose = Inl (OffsetOutOfBounds offset)"
    if "offset < 0 \<or> offset > getLength dv"
    using annotationsArrayFromOffset_bounds[OF that, of reg ignoreClose]
    by (simp add: getAnnotationIndexesFromOffset_def)
  have vsame: "(\<exists>e. getAnnotationIndexesFromOffset reg dv offset ignoreClose = Inl e) \<longleftrightarrow>
              (\<exists>e. annotationsArrayFromOffset reg dv offset ignoreClose = Inl e)"
    by (auto simp: getAnnotationIndexesFromOffset_def split: sum.splits option.splits)
  have vthrows: "(\<exists>e. getAnnotationIndexesFromOffset reg dv offset ignoreClose = Inl e) \<longleftrightarrow>
             (\<not> ignoreClose \<and>
              (\<exists>t. isClosingOf (getData dv offset) t \<and>
                   (reg t = None \<or>
                    canNodeHaveChildren reg t = Inr False \<and>
                    (\<exists>e. getRelativeContentOffset reg dv offset (-1) = Inl e))))"
    if "0 \<le> offset" "offset \<le> getLength dv"
    unfolding vsame by (rule annotationsArray_throws[OF that])
  have vreturns: "\<exists>a. getAnnotationIndexesFromOffset reg dv offset ignoreClose = Inr a"
    if st: "0 \<le> offset" "offset \<le> getLength dv" and r: "registeredData reg dv"
  proof -
    obtain a where a: "annotationsArrayFromOffset reg dv offset ignoreClose = Inr a"
      using annotationsArrayFromOffset_total[OF r st] by blast
    then show ?thesis
      by (auto simp: getAnnotationIndexesFromOffset_def split: option.splits)
  qed
  have vunknown: "getAnnotationIndexesFromOffset reg dv offset ignoreClose = Inl (UnknownNodeType t)"
    if "0 \<le> offset" "offset \<le> getLength dv" "\<not> ignoreClose"
       "isClosingOf (getData dv offset) t" "reg t = None"
    using annotationsArray_unknown[where reg = reg and t = t, OF that]
    by (simp add: getAnnotationIndexesFromOffset_def)
  have vatEnd: "getAnnotationIndexesFromOffset reg dv (getLength dv) ignoreClose = Inr []"
    by (simp add: getAnnotationIndexesFromOffset_def annotationsArrayFromOffset_end)
  show ?thesis
    using out throws unknown returns atEnd fresh vout vthrows vunknown vreturns vatEnd by blast
qed

lemma annotatedRefs_registered: "registeredData exampleRegistry annotatedRefs"
  by (simp add: registeredData_def annotatedRefs_def el_def newElement_def baseType_def isCloseName_def
      slice1_def exampleRegistry_def)

lemma annotatedRefs_valid: "validRefs annotatedArrays annotatedRefs"
  by (simp add: validRefs_def annotatedRefs_def annotatedArrays_def el_def newElement_def)

theorem getAnnotationIndexesFromOffset_bounds_and_copy_witness:
  "validRefs annotatedArrays annotatedRefs \<and> registeredData exampleRegistry annotatedRefs \<and>
   (0::int) \<le> 3 \<and> 3 \<le> getLength annotatedRefs \<and>
   getAnnotationIndexesFromOffset_ref exampleRegistry annotatedRefs annotatedArrays 3 False
     = Inr (2, [ [7], [7, 9], [7, 9] ]) \<and>
   map (derefItem ([ [7], [7, 9], [7, 9] ][2 := [1, 2, 3]])) annotatedRefs
     = map (derefItem annotatedArrays) annotatedRefs \<and>
   getAnnotationIndexesFromOffset_ref exampleRegistry annotatedRefs annotatedArrays 6 False
     = Inl (OffsetOutOfBounds 6) \<and>
   getAnnotationIndexesFromOffset_ref exampleRegistry annotatedRefs annotatedArrays 5 False
     = Inr (2, [ [7], [7, 9], [] ]) \<and>
   getAnnotationIndexesFromOffset exampleRegistry exampleData 2 False = Inr [0] \<and>
   getAnnotationIndexesFromOffset exampleRegistry exampleData 12 False = Inr [] \<and>
   getAnnotationIndexesFromOffset exampleRegistry exampleData 13 False = Inl (OffsetOutOfBounds 13) \<and>
   (0::int) \<le> 2 \<and> 2 \<le> getLength tableDocument \<and>
   isClosingOf (getData tableDocument 2) ''table'' \<and> exampleRegistry ''table'' = None \<and>
   getAnnotationIndexesFromOffset exampleRegistry tableDocument 2 False = Inl (UnknownNodeType ''table'') \<and>
   getAnnotationIndexesFromOffset exampleRegistry tableDocument 2 True = Inr []"
proof -
  have run: "getAnnotationIndexesFromOffset_ref exampleRegistry annotatedRefs annotatedArrays 3 False
     = Inr (2, [ [7], [7, 9], [7, 9] ])"
    by (simp add: getAnnotationIndexesFromOffset_ref_def annotationsArrayFromOffset_def newArray_def
        annotatedRefs_def annotatedArrays_def offset_eval)
  have v: "getAnnotationIndexesFromOffset exampleRegistry exampleData 2 False = Inr [0]"
    by (simp add: getAnnotationIndexesFromOffset_def annotationsArrayFromOffset_def
        exampleData_def offset_eval)
  have t: "getAnnotationIndexesFromOffset exampleRegistry tableDocument 2 True = Inr []"
    by (simp add: getAnnotationIndexesFromOffset_def annotationsArrayFromOffset_def
        tableDocument_def offset_eval)
  have len: "getLength exampleData = 12" "getLength annotatedRefs = 5" "getLength tableDocument = 6"
    by (simp_all add: exampleData_def annotatedRefs_def tableDocument_def getLength_def)
  have arrays: "length annotatedArrays = 2" "annotatedArrays @ [ [] ] = [ [7], [7, 9], [] ]"
    by (simp_all add: annotatedArrays_def)
  have closing: "isClosingOf (getData tableDocument 2) ''table''" "exampleRegistry ''table'' = None"
    by (simp_all add: tableDocument_def getData_def el_def newElement_def isClosingOf_def
        exampleRegistry_def)
  note inst = getAnnotationIndexesFromOffset_bounds_and_copy
               [OF annotatedRefs_valid, where offset = 3 and reg = exampleRegistry
                and ignoreClose = False and dv = exampleData]
  note inst6 = getAnnotationIndexesFromOffset_bounds_and_copy
               [OF annotatedRefs_valid, where offset = 6 and reg = exampleRegistry
                and ignoreClose = False and dv = exampleData]
  note inst13 = getAnnotationIndexesFromOffset_bounds_and_copy
               [OF annotatedRefs_valid, where offset = 13 and reg = exampleRegistry
                and ignoreClose = False and dv = exampleData]
  note inst2 = getAnnotationIndexesFromOffset_bounds_and_copy
               [OF annotatedRefs_valid, where offset = 2 and reg = exampleRegistry
                and ignoreClose = False and dv = tableDocument and t = "''table''"]
  have fresh: "map (derefItem ([ [7], [7, 9], [7, 9] ][2 := [1, 2, 3]])) annotatedRefs
     = map (derefItem annotatedArrays) annotatedRefs"
    using inst run by blast
  have out: "getAnnotationIndexesFromOffset_ref exampleRegistry annotatedRefs annotatedArrays 6 False
     = Inl (OffsetOutOfBounds 6)"
    using inst6 len by simp
  have atEnd: "getAnnotationIndexesFromOffset_ref exampleRegistry annotatedRefs annotatedArrays 5 False
     = Inr (2, [ [7], [7, 9], [] ])"
    using inst len arrays by simp
  have vend: "getAnnotationIndexesFromOffset exampleRegistry exampleData 12 False = Inr []"
    using inst len by simp
  have vout: "getAnnotationIndexesFromOffset exampleRegistry exampleData 13 False = Inl (OffsetOutOfBounds 13)"
    using inst13 len by simp
  have bounds: "(0::int) \<le> 2" "2 \<le> getLength tableDocument" by (simp_all add: len)
  have unknown: "getAnnotationIndexesFromOffset exampleRegistry tableDocument 2 False
      = Inl (UnknownNodeType ''table'')"
    using inst2 bounds closing by blast
  show ?thesis
    using annotatedRefs_valid annotatedRefs_registered len run fresh out atEnd v vend vout
      closing unknown t by simp
qed

text \<open>
  The claim as stated fails inside the bounds: offset 2 of the document below holds the
  closing marker of a table, a type that the registry does not know, and with
  \<open>ignoreClose\<close> unset the query \<open>canNodeHaveChildren\<close> throws.
\<close>

theorem getAnnotationIndexesFromOffset_unregistered_counterexample:
  "(0::int) \<le> 2 \<and> 2 \<le> getLength tableDocument \<and>
   getAnnotationIndexesFromOffset exampleRegistry tableDocument 2 False = Inl (UnknownNodeType ''table'')"
  by (simp add: getAnnotationIndexesFromOffset_def annotationsArrayFromOffset_def
      tableDocument_def offset_eval)

subsection \<open>Sanitizing to plain text\<close>

lemma getData_at: "getData (pre @ x # post) (int (length pre)) = x"
  by (simp add: getData_def)

lemma getData_after: "getData (pre @ x # y # post) (int (length pre) + 1) = y"
  by (simp add: getData_def nth_append nat_add_distrib)

lemma plainTextRules_simps:
  "blacklist plainTextRules = None" "conversions plainTextRules = None"
  "removeOriginalDomElements plainTextRules = False" "plainText plainTextRules = True"
  "allowBreaks plainTextRules = False" "preserveHtmlWhitespace plainTextRules = False"
  "nodeSanitization plainTextRules = False" "keepEmptyContentBranches plainTextRules = False"
  by (simp_all add: plainTextRules_def)

lemma setData_at: "setData (pre @ x # post) (int (length pre)) y = pre @ y # post"
  by (simp add: setData_def)

lemma body_char:
  assumes "s_data s = pre @ AnnChr c [b] # post" "s_i s = int (length pre)" "c \<noteq> [CHR 0x0A]"
  shows "sanitize_body reg nodeSanitize plainTextRules setToRemove s =
           Inr (s\<lparr> s_data := pre @ Chr c # post \<rparr>)"
proof -
  have item: "getData (s_data s) (s_i s) = AnnChr c [b]"
    using assms by (simp add: getData_at)
  have notel: "\<not> isElementData (s_data s) (s_i s)"
    using item by (simp add: isElementData_def)
  have ch: "sanitize_character reg plainTextRules s = Inr (False, s)"
    using item assms(3) by (simp add: sanitize_character_def getCharacterData_def andE_def bindE_def)
  have ann: "getAnnotationsFromOffset reg (s_data s) (s_i s) True = Inr [b]"
    using item assms(1,2)
    by (simp add: getAnnotationsFromOffset_def getAnnotationIndexesFromOffset_def
        annotationsArrayFromOffset_def andE_def getLength_def)
  have set: "setAnnotationsAtOffset (s_data s) (s_store s) (s_i s) [] = Inr (pre @ Chr c # post, s_store s)"
    using item notel assms(1,2)
    by (simp add: setAnnotationsAtOffset_def bindE_def setAnnotationIndexesAtOffset_def
        getCharacterData_def setData_at)
  have notopen: "\<not> isOpenElementData (pre @ Chr c # post) (s_i s)"
    using assms(2) by (simp add: isOpenElementData_def getData_at)
  show ?thesis
    unfolding sanitize_body_def using notel
    by (simp add: ch bindE_def sanitize_annotations_def ann set notopen plainTextRules_simps)
qed

lemma newElement_simps:
  "type (newElement ty) = ty" "attributes (newElement ty) = None"
  "annotations (newElement ty :: 'r element) = None" "internal (newElement ty) = None"
  "originalDomElementsIndex (newElement ty) = None"
  by (simp_all add: newElement_def)

lemma getInternalProp_newElement: "getInternalProp (Elem (newElement ty)) key = False"
  by (simp add: getInternalProp_def newElement_simps)

lemma body_open:
  assumes d: "s_data s = Elem he # AnnChr c [b] # post" and i: "s_i s = 0"
    and t: "type he = t" "reg t = Some st" "canContainContent st" "t \<noteq> ''paragraph''"
           "\<not> isCloseName t"
  shows "sanitize_body reg nodeSanitize plainTextRules setToRemove s =
           Inr (s\<lparr> s_data := Elem (newElement ''paragraph'') # AnnChr c [b] # post,
                   s_type := Some ''paragraph'', s_contentElement := Some 0 \<rparr>)"
proof -
  have item: "getData (s_data s) 0 = Elem he" using d by (simp add: getData_def)
  have isel: "isElementData (s_data s) (s_i s)" using item i by (simp add: isElementData_def)
  have ty: "getType (s_data s) 0 = Inr (Some t)"
    using item t by (simp add: getType_def isCloseElementData_def js_string_def)
  have isopen: "isOpenElementData (s_data s) 0"
    using item t by (simp add: isOpenElementData_def js_string_def)
  have d2: "setData (s_data s) 0 (Elem (newElement ''paragraph'')) =
              Elem (newElement ''paragraph'') # AnnChr c [b] # post"
    using d by (simp add: setData_def)
  have notclose: "\<not> isCloseElementData (s_data s) 0"
    using item t by (simp add: isCloseElementData_def js_string_def)
  have nextnotclose: "\<not> isCloseElementData (Elem (newElement ''paragraph'') # AnnChr c [b] # post) 1"
    by (simp add: isCloseElementData_def getData_def)
  have para: "getData (Elem (newElement ''paragraph'') # AnnChr c [b] # post) 0 = Elem (newElement ''paragraph'')"
    by (simp add: getData_def)
  have el: "sanitize_element reg plainTextRules s =
      Inr (False, s\<lparr> s_type := Some ''paragraph'',
                      s_data := Elem (newElement ''paragraph'') # AnnChr c [b] # post,
                      s_contentElement := Some 0 \<rparr>)"
    unfolding sanitize_element_def
    using t
    by (simp add: i ty bindE_def canNodeContainContent_def js_string_def isopen notclose d2
        nextnotclose para plainTextRules_simps Let_def getInternalProp_newElement)
  have ann: "getAnnotationsFromOffset reg (Elem (newElement ''paragraph'') # AnnChr c [b] # post) 0 True = Inr []"
    by (simp add: getAnnotationsFromOffset_def getAnnotationIndexesFromOffset_def
        annotationsArrayFromOffset_def andE_def getLength_def getData_def newElement_simps)
  show ?thesis
    unfolding sanitize_body_def using isel
    by (simp add: el bindE_def sanitize_annotations_def i ann plainTextRules_simps)
qed

lemma body_close:
  assumes d: "s_data s = pre @ [Elem (newElement (CHR ''/'' # t))]" and i: "s_i s = int (length pre)"
    and t: "reg t = Some st" "canContainContent st" "t \<noteq> ''paragraph''"
  shows "sanitize_body reg nodeSanitize plainTextRules setToRemove s =
           Inr (s\<lparr> s_data := pre @ [Elem (newElement ''/paragraph'')],
                   s_type := Some ''paragraph'', s_contentElement := None \<rparr>)"
proof -
  have item: "getData (s_data s) (s_i s) = Elem (newElement (CHR ''/'' # t))"
    using d i by (simp add: getData_at)
  have isel: "isElementData (s_data s) (s_i s)" using item by (simp add: isElementData_def)
  have isclose: "isCloseElementData (s_data s) (s_i s)"
    using item by (simp add: isCloseElementData_def js_string_def newElement_simps isCloseName_def)
  have ty: "getType (s_data s) (s_i s) = Inr (Some t)"
    using item isclose by (simp add: getType_def js_string_def newElement_simps slice1_def)
  have notopen: "\<not> isOpenElementData (s_data s) (s_i s)"
    using item by (simp add: isOpenElementData_def js_string_def newElement_simps isCloseName_def)
  have d2: "setData (s_data s) (s_i s) (Elem (newElement ''/paragraph'')) =
              pre @ [Elem (newElement ''/paragraph'')]"
    using d i by (simp add: setData_at)
  have para: "getData (pre @ [Elem (newElement ''/paragraph'')]) (s_i s) = Elem (newElement ''/paragraph'')"
    using i by (simp add: getData_at)
  have el: "sanitize_element reg plainTextRules s =
      Inr (False, s\<lparr> s_type := Some ''paragraph'',
                      s_data := pre @ [Elem (newElement ''/paragraph'')],
                      s_contentElement := None \<rparr>)"
    unfolding sanitize_element_def
    using t
    by (simp add: ty bindE_def canNodeContainContent_def js_string_def notopen isclose d2
        para plainTextRules_simps Let_def getInternalProp_newElement)
  have ann: "getAnnotationsFromOffset reg (pre @ [Elem (newElement ''/paragraph'')]) (s_i s) True = Inr []"
    using i
    by (simp add: getAnnotationsFromOffset_def getAnnotationIndexesFromOffset_def
        annotationsArrayFromOffset_def andE_def getLength_def getData_at newElement_simps)
  have notopen2: "\<not> isOpenElementData (pre @ [Elem (newElement ''/paragraph'')]) (s_i s)"
    using i by (simp add: isOpenElementData_def getData_at js_string_def newElement_simps isCloseName_def)
  show ?thesis
    unfolding sanitize_body_def using isel
    by (simp add: el bindE_def sanitize_annotations_def ann notopen2 plainTextRules_simps)
qed

lemma loop_chars:
  "s_data s = pre @ map (\<lambda>c. AnnChr c [b]) cs @ post \<Longrightarrow> s_i s = int (length pre) \<Longrightarrow>
   int (length pre + length cs) \<le> s_len s \<Longrightarrow> \<forall>c \<in> set cs. c \<noteq> [CHR 0x0A] \<Longrightarrow>
   sanitize_loop (length cs + fuel) reg nodeSanitize plainTextRules setToRemove s =
   sanitize_loop fuel reg nodeSanitize plainTextRules setToRemove
     (s\<lparr> s_data := pre @ map Chr cs @ post, s_i := int (length pre + length cs) \<rparr>)"
proof (induction cs arbitrary: s pre)
  case Nil
  have "s\<lparr> s_data := pre @ post, s_i := int (length pre) \<rparr> = s"
    using Nil.prems(1,2)[symmetric] by simp
  then show ?case by simp
next
  case (Cons c cs)
  have d: "s_data s = pre @ AnnChr c [b] # (map (\<lambda>c. AnnChr c [b]) cs @ post)"
    using Cons.prems(1) by simp
  have c: "c \<noteq> [CHR 0x0A]" using Cons.prems(4) by simp
  have lt: "s_i s < s_len s" using Cons.prems(2,3) by simp
  note body = body_char[OF d Cons.prems(2) c, of reg nodeSanitize setToRemove]
  let ?s1 = "s\<lparr> s_data := pre @ Chr c # (map (\<lambda>c. AnnChr c [b]) cs @ post), s_i := s_i s + 1 \<rparr>"
  have step: "sanitize_loop (length (c # cs) + fuel) reg nodeSanitize plainTextRules setToRemove s =
      sanitize_loop (length cs + fuel) reg nodeSanitize plainTextRules setToRemove ?s1"
    using lt by (simp add: body)
  have d1: "s_data ?s1 = (pre @ [Chr c]) @ map (\<lambda>c. AnnChr c [b]) cs @ post" by simp
  have i1: "s_i ?s1 = int (length (pre @ [Chr c]))" using Cons.prems(2) by simp
  have l1: "int (length (pre @ [Chr c]) + length cs) \<le> s_len ?s1" using Cons.prems(3) by simp
  have n1: "\<forall>c \<in> set cs. c \<noteq> [CHR 0x0A]" using Cons.prems(4) by simp
  show ?case
    unfolding step Cons.IH[OF d1 i1 l1 n1] by simp
qed

lemma range_check_total:
  assumes "registeredData reg d"
  shows "\<exists>depth' skip.
     (if isElementData d i
      then bindE (getType d i) (\<lambda>t.
             bindE (shouldIgnoreChildren reg (js_string t)) (\<lambda>ign.
             bindE (isNodeContent reg (js_string t)) (\<lambda>content.
               Inr (if ign then depth + (if isOpenElementData d i then 1 else -1)
                    else depth, \<not> content))))
      else Inr (depth, False)) = Inr (depth', skip)"
proof (cases "isElementData d i")
  case True
  then have range: "0 \<le> i" "i < getLength d"
    by (auto simp: isElementData_def getData_def getLength_def Let_def split: if_splits)
  from getType_registered[OF assms range] True
  obtain s st where "getType d i = Inr (Some s)" "reg s = Some st" by auto
  then show ?thesis using True
    by (simp add: bindE_def shouldIgnoreChildren_def isNodeContent_def js_string_def)
next
  case False
  then show ?thesis by auto
qed

lemma range_unfold:
  assumes "i < rend"
    and "(if isElementData d i
      then bindE (getType d i) (\<lambda>t.
             bindE (shouldIgnoreChildren reg (js_string t)) (\<lambda>ign.
             bindE (isNodeContent reg (js_string t)) (\<lambda>content.
               Inr (if ign then depth + (if isOpenElementData d i then 1 else -1)
                    else depth, \<not> content))))
      else Inr (depth, False)) = Inr (depth', skip)"
    and "getAnnotationsFromOffset reg d i False = Inr here"
  shows "getAnnotationsFromRange_loop reg comparable d rstart rend all i left depth =
     (if skip \<or> depth' > 0 then
        getAnnotationsFromRange_loop reg comparable d rstart rend all (i + 1) left depth'
      else
        (case left of
           None \<Rightarrow>
             if rend - rstart = 0 \<or> rend - rstart = 1 then Inr here
             else getAnnotationsFromRange_loop reg comparable d rstart rend all (i + 1)
                    (Some here) depth'
         | Some l \<Rightarrow>
             if all \<and> here \<noteq> [] then
               getAnnotationsFromRange_loop reg comparable d rstart rend all (i + 1)
                 (Some (addSet l here)) depth'
             else if \<not> all then
               (if here = [] then Inr []
                else let l' = comparable l here
                     in if l' = [] then Inr l'
                        else getAnnotationsFromRange_loop reg comparable d rstart rend
                               all (i + 1) (Some l') depth')
             else getAnnotationsFromRange_loop reg comparable d rstart rend all (i + 1)
                    (Some l) depth'))"
  apply (subst getAnnotationsFromRange_loop.simps)
  apply (simp only: assms sum.case prod.case if_True if_False not_not simp_thms)
  done

lemma getAnnotationsFromOffset_total:
  assumes "registeredData reg d" "0 \<le> i" "i \<le> getLength d"
  shows "\<exists>here. getAnnotationsFromOffset reg d i ignoreClose = Inr here"
  using annotationsArrayFromOffset_total[OF assms, of ignoreClose]
  by (auto simp: getAnnotationsFromOffset_def getAnnotationIndexesFromOffset_def split: option.splits)

lemma range_total:
  assumes r: "registeredData reg d"
  shows "0 \<le> i \<Longrightarrow> rend \<le> getLength d \<Longrightarrow>
   \<exists>r. getAnnotationsFromRange_loop reg comparable d rstart rend all i left depth = Inr r"
proof (induction "nat (rend - i)" arbitrary: i left depth)
  case 0
  then have "\<not> i < rend" by simp
  then show ?case by (subst getAnnotationsFromRange_loop.simps) simp
next
  case (Suc k)
  then have lt: "i < rend" by simp
  obtain depth' skip where chk: "(if isElementData d i
      then bindE (getType d i) (\<lambda>t.
             bindE (shouldIgnoreChildren reg (js_string t)) (\<lambda>ign.
             bindE (isNodeContent reg (js_string t)) (\<lambda>content.
               Inr (if ign then depth + (if isOpenElementData d i then 1 else -1)
                    else depth, \<not> content))))
      else Inr (depth, False)) = Inr (depth', skip)"
    using range_check_total[OF r, of i depth] by blast
  have "i \<le> getLength d" using lt Suc.prems by simp
  then obtain here where here: "getAnnotationsFromOffset reg d i False = Inr here"
    using getAnnotationsFromOffset_total[OF r Suc.prems(1)] by blast
  have k: "k = nat (rend - (i + 1))" using Suc.hyps(2) by simp
  have nxt: "0 \<le> i + 1" using Suc.prems by simp
  note IH = Suc.hyps(1)[OF k nxt Suc.prems(2)]
  show ?case
    unfolding range_unfold[OF lt chk here]
    using IH by (auto simp: Let_def split: option.splits)
qed

lemma headingDocument_registered:
  assumes "type he = t" "reg t = Some st" "\<not> isCloseName t"
  shows "registeredData reg (headingDocument he t b cs)"
  using assms
  by (auto simp: registeredData_def headingDocument_def list_all_iff baseType_def newElement_simps
      isCloseName_def slice1_def)

lemma sanitize_loop_done:
  "\<not> s_i s < s_len s \<Longrightarrow> sanitize_loop fuel reg nodeSanitize rules setToRemove s = Some (Inr s)"
  by (cases fuel) simp_all

lemma sanitize_loop_step:
  "s_i s < s_len s \<Longrightarrow> sanitize_body reg nodeSanitize rules setToRemove s = Inr s1 \<Longrightarrow>
   sanitize_loop (Suc fuel) reg nodeSanitize rules setToRemove s =
   sanitize_loop fuel reg nodeSanitize rules setToRemove (s1\<lparr> s_i := s_i s1 + 1 \<rparr>)"
  by simp

lemma sanitize_heading_loop:
  assumes t: "type he = t" "reg t = Some st" "canContainContent st" "t \<noteq> ''paragraph''"
             "\<not> isCloseName t"
    and cs: "cs \<noteq> []" "\<forall>c \<in> set cs. c \<noteq> [CHR 0x0A]"
    and fuel: "length cs + 2 \<le> fuel"
  shows "sanitize_loop fuel reg nodeSanitize plainTextRules setToRemove
           \<lparr> s_data = headingDocument he t b cs, s_store = store, s_i = 0,
             s_len = getLength (headingDocument he t b cs), s_type = None,
             s_contentElement = None \<rparr> =
         Some (Inr \<lparr> s_data = paragraphDocument cs, s_store = store,
                     s_i = int (length cs) + 2, s_len = int (length cs) + 2,
                     s_type = Some ''paragraph'', s_contentElement = None \<rparr>)"
proof -
  obtain c cs' where ccs: "cs = c # cs'" using cs(1) by (cases cs) auto
  obtain k where k: "fuel = Suc (length cs + Suc k)"
    using fuel by (metis add_2_eq_Suc' add_Suc_right le_Suc_ex add.commute)
  let ?close = "Elem (newElement (CHR ''/'' # t)) :: nat list item"
  let ?len = "int (length cs) + 2"
  let ?s0 = "\<lparr> s_data = headingDocument he t b cs, s_store = store, s_i = 0,
             s_len = getLength (headingDocument he t b cs), s_type = None,
             s_contentElement = None \<rparr>"
  have len: "getLength (headingDocument he t b cs) = ?len"
    by (simp add: getLength_def headingDocument_def)
  have d0: "s_data ?s0 = Elem he # AnnChr c [b] # (map (\<lambda>c. AnnChr c [b]) cs' @ [?close])"
    by (simp add: headingDocument_def ccs)
  let ?s1 = "\<lparr> s_data = [Elem (newElement ''paragraph'')] @ map (\<lambda>c. AnnChr c [b]) cs @ [?close],
              s_store = store, s_i = 1, s_len = ?len, s_type = Some ''paragraph'',
              s_contentElement = Some 0 \<rparr>"
  have step1: "sanitize_loop fuel reg nodeSanitize plainTextRules setToRemove ?s0 =
               sanitize_loop (length cs + Suc k) reg nodeSanitize plainTextRules setToRemove ?s1"
  proof -
    have i0: "s_i ?s0 = 0" by simp
    note b1 = body_open[where s = ?s0 and nodeSanitize = nodeSanitize and setToRemove = setToRemove
                          and reg = reg and t = t and he = he and st = st,
                        OF d0 i0 t]
    have lt: "s_i ?s0 < s_len ?s0" by (simp add: len)
    show ?thesis
      unfolding k sanitize_loop_step[OF lt b1] by (simp add: getLength_def headingDocument_def ccs del: sanitize_loop.simps)
  qed
  let ?s2 = "\<lparr> s_data = [Elem (newElement ''paragraph'')] @ map Chr cs @ [?close],
              s_store = store, s_i = int (length cs) + 1, s_len = ?len,
              s_type = Some ''paragraph'', s_contentElement = Some 0 \<rparr>"
  have step2: "sanitize_loop (length cs + Suc k) reg nodeSanitize plainTextRules setToRemove ?s1 =
               sanitize_loop (Suc k) reg nodeSanitize plainTextRules setToRemove ?s2"
  proof -
    have d1: "s_data ?s1 = [Elem (newElement ''paragraph'')] @ map (\<lambda>c. AnnChr c [b]) cs @ [?close]"
      by simp
    have i1: "s_i ?s1 = int (length [Elem (newElement ''paragraph'') :: nat list item])" by simp
    have l1: "int (length [Elem (newElement ''paragraph'') :: nat list item] + length cs) \<le> s_len ?s1"
      by simp
    show ?thesis
      unfolding loop_chars[where s = ?s1 and fuel = "Suc k" and reg = reg
                             and nodeSanitize = nodeSanitize and setToRemove = setToRemove,
                           OF d1 i1 l1 cs(2)]
      by (simp add: add.commute del: sanitize_loop.simps)
  qed
  have d2: "s_data ?s2 = (Elem (newElement ''paragraph'') # map Chr cs) @ [?close]" by simp
  have i2: "s_i ?s2 = int (length (Elem (newElement ''paragraph'') # map Chr cs))" by simp
  have step3: "sanitize_loop (Suc k) reg nodeSanitize plainTextRules setToRemove ?s2 =
               Some (Inr \<lparr> s_data = paragraphDocument cs, s_store = store,
                     s_i = ?len, s_len = ?len,
                     s_type = Some ''paragraph'', s_contentElement = None \<rparr>)"
  proof -
    note b3 = body_close[where s = ?s2 and nodeSanitize = nodeSanitize and setToRemove = setToRemove
                           and reg = reg and t = t and st = st,
                         OF d2 i2 t(2,3,4)]
    have lt: "s_i ?s2 < s_len ?s2" by simp
    show ?thesis
      unfolding sanitize_loop_step[OF lt b3]
      by (simp add: sanitize_loop_done paragraphDocument_def)
  qed
  show ?thesis unfolding step1 step2 step3 ..
qed

text \<open>
  C5, as the code has it. Take an opening element of a registered type that can contain
  content and is not the paragraph, at least one character, none of them the plain newline,
  each annotated with one annotation, and the matching closing marker. With the rules
  \<open>{ plainText: true }\<close> the loop of \<open>sanitize\<close> ends within as many passes as the data
  has items, nothing is thrown, and the data is left as one opening paragraph element,
  the same characters as bare strings, and one closing paragraph marker; the store is as
  it was.
\<close>

theorem sanitize_plainText_heading:
  assumes "type he = t" and "reg t = Some st" and "canContainContent st"
    and "t \<noteq> ''paragraph''" and "\<not> isCloseName t"
    and "cs \<noteq> []" and "\<forall>c \<in> set cs. c \<noteq> [CHR 0x0A]"
    and "length cs + 2 \<le> fuel"
  shows "sanitize fuel reg comparable nodeSanitize (headingDocument he t b cs) store plainTextRules =
           Some (Inr (paragraphDocument cs, store))"
proof -
  have r: "registeredData reg (headingDocument he t b cs)"
    using headingDocument_registered[where reg = reg and t = t, OF assms(1,2,5)] .
  obtain allAnnotations where a: "getAnnotationsFromRange reg comparable (headingDocument he t b cs) 0
      (getLength (headingDocument he t b cs)) True = Inr allAnnotations"
    using range_total[OF r, of 0 "getLength (headingDocument he t b cs)" comparable 0 True None 0]
    by (auto simp: getAnnotationsFromRange_def)
  show ?thesis
    unfolding sanitize_def
    by (simp del: sanitize_loop.simps add: a plainTextRules_simps
        sanitize_heading_loop[where reg = reg and t = t and he = he and st = st, OF assms])
qed

theorem sanitize_plainText_heading_witness:
  "canNodeContainContent exampleRegistry ''heading'' = Inr True \<and>
   sanitize 4 exampleRegistry sameAnnotations (\<lambda>t. None) boldHeading boldStore plainTextRules =
     Some (Inr ([el ''paragraph'', Chr ''a'', Chr ''b'', el ''/paragraph''], boldStore))"
  using sanitize_plainText_heading
          [of "(newElement ''heading'')\<lparr> attributes := Some [(''level'', JNum 2)] \<rparr>" "''heading''"
              exampleRegistry "branchStatic\<lparr> canContainContent := True,
                                     defaultAttributes := [(''level'', JNum 1)] \<rparr>"
              "[''a'', ''b'']" 4 sameAnnotations "\<lambda>t. None" 0 boldStore]
  by (simp add: boldHeading_def headingDocument_def paragraphDocument_def el_def newElement_def
      exampleRegistry_def isCloseName_def canNodeContainContent_def)

lemmas sanitize_eval =
  sanitize_def getAnnotationsFromRange_def getAnnotationsFromRange_loop.simps
  getAnnotationsFromOffset_def getAnnotationIndexesFromOffset_def annotationsArrayFromOffset_def
  getRelativeContentOffset_def getRelativeOffset_def getRelativeOffset_loop.simps
  sanitize_body_def sanitize_element_def sanitize_character_def sanitize_annotations_def
  setAnnotationsAtOffset_def setAnnotationIndexesAtOffset_def
  getCharacterData_def getInternalProp_def setData_def splice_def mutateElement_def
  doesNodeHaveSignificantWhitespace_def plainTextRules_def
  isContentOffset_def getLength_def getData_def getType_def
  isElementData_def isOpenElementData_def isCloseElementData_def dirInt_def
  shouldIgnoreChildren_def isNodeContent_def canNodeContainContent_def
  andE_def orE_def notE_def bindE_def js_string_def isCloseName_def slice1_def
  el_def newElement_def exampleRegistry_def branchStatic_def Let_def

text \<open>
  The claim as stated fails on a newline: it is a character of the heading like any other,
  and outside a node with significant whitespace \<open>sanitize\<close> replaces it by a space, so
  the paragraph does not hold the same characters.
\<close>

theorem sanitize_plainText_newline_counterexample:
  "sanitize 3 exampleRegistry sameAnnotations (\<lambda>t. None) newlineHeading boldStore plainTextRules =
     Some (Inr ([el ''paragraph'', Chr '' '', el ''/paragraph''], boldStore)) \<and>
   [el ''paragraph'', Chr '' '', el ''/paragraph''] \<noteq> paragraphDocument [ [CHR 0x0A] ]"
  by (simp add: newlineHeading_def paragraphDocument_def sanitize_eval)

end
